theory Spec2Isabelle
  imports Complex_Main "HOL-Library.Word" "HOL-Library.Log_Nat"
begin

unbundle bit_operations_syntax

section \<open>Numbers and strings of the source language\<close>

text \<open>
  The program is TypeScript. Its numbers are IEEE doubles; they are modelled as rationals
  (\<open>rat\<close>). All integer-valued quantities of the program (the 32-bit generator state,
  glyph indices, rows, columns, positions) and the generator's outputs, which are 32-bit
  integers divided by \<open>2^32\<close>, are represented exactly by a double, so nothing is lost
  there. Where the rounding of a double operation decides what the program does, it is
  modelled, by \<open>double\<close> below: in the numbers read from the command line (\<open>parseInt\<close>)
  and in the test for a due frame (\<open>1000 / TARGET_FPS\<close> and \<open>now - this.lastFrame\<close>). The
  rounding of \<open>0.3 + r * 0.7\<close>, of \<open>now + 100 / speed\<close> and of the colour channels is not
  modelled: there the model computes exactly.

  The bit operations of the generator work on 32-bit integers and are modelled on
  \<open>32 word\<close>, where \<open>+\<close> and \<open>*\<close> wrap around as \<open>| 0\<close> and \<open>Math.imul\<close> do.
\<close>

type_synonym u32 = "32 word"

text \<open>\<open>x | 0\<close> on a number: truncate towards zero, then wrap into the signed 32-bit range.\<close>

definition trunc :: "rat \<Rightarrow> int" where
  "trunc x = (if 0 \<le> x then \<lfloor>x\<rfloor> else \<lceil>x\<rceil>)"

definition toInt32 :: "rat \<Rightarrow> int" where
  "toInt32 x = sint (word_of_int (trunc x) :: u32)"

section \<open>Doubles\<close>

text \<open>
  \<open>double x\<close> is the double nearest to \<open>x\<close>, ties going to the even significand: with
  \<open>2^e \<le> |x| < 2^(e+1)\<close> (\<open>e\<close> is \<open>binade |x|\<close>), doubles around \<open>x\<close> are the multiples of
  \<open>2^(e-52)\<close>, and of \<open>2^(-1074)\<close> below \<open>2^(-1022)\<close>. A result of magnitude \<open>2^1024\<close> or
  more is not a double: the operation yields an infinity (\<open>overflows\<close>).
\<close>

definition binade :: "rat \<Rightarrow> int" where
  "binade x = (if 1 \<le> x then bitlen \<lfloor>x\<rfloor> - 1 else - bitlen (\<lceil>1 / x\<rceil> - 1))"

definition round_even :: "rat \<Rightarrow> int" where
  "round_even q =
     (let f = \<lfloor>q\<rfloor>; d = q - of_int f
      in if d < 1 / 2 then f else if 1 / 2 < d then f + 1 else if even f then f else f + 1)"

definition double :: "rat \<Rightarrow> rat" where
  "double x =
     (if x = 0 then 0
      else (let e = max (binade \<bar>x\<bar>) (- 1022); ulp = 2 powi (e - 52)
            in of_int (round_even (x / ulp)) * ulp))"

definition overflows :: "rat \<Rightarrow> bool" where
  "overflows x = (\<bar>double x\<bar> \<ge> 2 ^ 1024)"

section \<open>Numbers from the command line\<close>

text \<open>
  The options \<open>--seed\<close>, \<open>--fps\<close> and \<open>--trail\<close> are read with \<open>parseInt(value, 10)\<close>. The
  leading sign and digits of the value denote an integer \<open>k\<close> (\<open>Some k\<close>; \<open>None\<close> when the
  value starts with no digit). The result is \<open>NaN\<close> without digits and otherwise the double
  nearest to \<open>k\<close>: \<open>Finite j\<close> is the double whose value is the integer \<open>j\<close>, and \<open>Infinity\<close>
  stands for both infinities, between which the program makes no difference.
\<close>

datatype number = Finite int | Infinity | NaN

definition parseInt :: "int option \<Rightarrow> number" where
  "parseInt v =
     (case v of
        None \<Rightarrow> NaN
      | Some k \<Rightarrow> if overflows (of_int k) then Infinity else Finite \<lfloor>double (of_int k)\<rfloor>)"

section \<open>Mulberry32\<close>

text \<open>
  \<open>mulberry32(seed)\<close> returns a closure over the variable \<open>a\<close>, initialised with
  \<open>seed | 0\<close>: the low 32 bits of an integer, and 0 for an infinity and for \<open>NaN\<close>. The
  closure's state is that one 32-bit integer: \<open>mulberry32\<close> gives the initial state and
  \<open>mulberry32_next\<close> is one call of the closure, returning the number produced and the
  new value of \<open>a\<close>.
\<close>

definition mulberry32 :: "number \<Rightarrow> u32" where
  "mulberry32 seed = (case seed of Finite k \<Rightarrow> word_of_int k | Infinity \<Rightarrow> 0 | NaN \<Rightarrow> 0)"

text \<open>\<open>(w >>> 0) / 4294967296\<close>: the 32 bits read as an unsigned integer, divided by \<open>2^32\<close>.\<close>

definition unsigned_fraction :: "u32 \<Rightarrow> rat" where
  "unsigned_fraction w = of_nat (unat w) / 4294967296"

definition mulberry32_next :: "u32 \<Rightarrow> rat \<times> u32" where
  "mulberry32_next a0 =
     (let a = a0 + 0x6D2B79F5;
          t = (a XOR drop_bit 15 a) * (1 OR a);
          t = (t + (t XOR drop_bit 7 t) * (61 OR t)) XOR t
      in (unsigned_fraction (t XOR drop_bit 14 t), a))"

section \<open>The random source\<close>

text \<open>
  \<open>random\<close> is bound once, at start-up, to the seeded generator when a seed was given
  and to the runtime's \<open>Math.random\<close> otherwise. \<open>Math.random\<close> is not code of the
  program: it is modelled as a stream of numbers supplied by the environment, of which
  only the language's contract is known (each is at least 0 and less than 1).
\<close>

typedef unit_fraction = "{x :: rat. 0 \<le> x \<and> x < 1}"
  by (rule exI [of _ 0]) simp

datatype rng = Seeded u32 | MathRandom "nat \<Rightarrow> unit_fraction"

fun random :: "rng \<Rightarrow> rat \<times> rng" where
  "random (Seeded a) = (let (r, a') = mulberry32_next a in (r, Seeded a'))"
| "random (MathRandom f) = (Rep_unit_fraction (f 0), MathRandom (\<lambda>n. f (Suc n)))"

text \<open>\<open>args.seed !== undefined ? mulberry32(args.seed) : Math.random\<close>\<close>

definition random_source :: "number option \<Rightarrow> (nat \<Rightarrow> unit_fraction) \<Rightarrow> rng" where
  "random_source seed env = (case seed of Some s \<Rightarrow> Seeded (mulberry32 s) | None \<Rightarrow> MathRandom env)"

text \<open>The first \<open>n\<close> numbers a source produces.\<close>

fun outputs :: "nat \<Rightarrow> rng \<Rightarrow> rat list" where
  "outputs 0 g = []"
| "outputs (Suc n) g = (let (r, g') = random g in r # outputs n g')"

section \<open>Strings and escape sequences\<close>

text \<open>
  A JavaScript string is a sequence of UTF-16 code units; it is modelled as the list of
  their numbers, since the glyph alphabet is not ASCII. \<open>ascii\<close> turns an ASCII literal
  into such a list.
\<close>

type_synonym jstring = "nat list"

definition ascii :: "string \<Rightarrow> jstring" where
  "ascii s = map of_char s"

text \<open>An integer inside a template literal: its decimal digits, with a sign if negative.\<close>

function digits :: "nat \<Rightarrow> jstring" where
  "digits n = (if n < 10 then [48 + n] else digits (n div 10) @ [48 + n mod 10])"
  by pat_completeness auto
termination
  by (relation "measure id") auto

definition num :: "int \<Rightarrow> jstring" where
  "num n = (if n < 0 then 45 # digits (nat (- n)) else digits (nat n))"

definition ESC :: jstring where
  "ESC = [27, 91]"

definition HIDE_CURSOR :: jstring where
  "HIDE_CURSOR = ESC @ ascii ''?25l''"

definition SHOW_CURSOR :: jstring where
  "SHOW_CURSOR = ESC @ ascii ''?25h''"

definition CLEAR_SCREEN :: jstring where
  "CLEAR_SCREEN = ESC @ ascii ''2J''"

definition RESET :: jstring where
  "RESET = ESC @ ascii ''0m''"

definition rgb :: "int \<Rightarrow> int \<Rightarrow> int \<Rightarrow> jstring" where
  "rgb r g b = ESC @ ascii ''38;2;'' @ num r @ ascii '';'' @ num g @ ascii '';'' @ num b @ ascii ''m''"

definition moveTo :: "int \<Rightarrow> int \<Rightarrow> jstring" where
  "moveTo row col = ESC @ num row @ ascii '';'' @ num col @ ascii ''H''"

text \<open>
  The glyph alphabet: 46 katakana (code units \<open>0x30A2\<close> .. \<open>0x30F3\<close>), the ten digits and
  the 26 capital letters.
\<close>

definition CHARS :: jstring where
  "CHARS =
     [0x30A2, 0x30A4, 0x30A6, 0x30A8, 0x30AA, 0x30AB, 0x30AD, 0x30AF, 0x30B1, 0x30B3,
      0x30B5, 0x30B7, 0x30B9, 0x30BB, 0x30BD, 0x30BF, 0x30C1, 0x30C4, 0x30C6, 0x30C8,
      0x30CA, 0x30CB, 0x30CC, 0x30CD, 0x30CE, 0x30CF, 0x30D2, 0x30D5, 0x30D8, 0x30DB,
      0x30DE, 0x30DF, 0x30E0, 0x30E1, 0x30E2, 0x30E4, 0x30E6, 0x30E8, 0x30E9, 0x30EA,
      0x30EB, 0x30EC, 0x30ED, 0x30EF, 0x30F2, 0x30F3]
     @ ascii ''0123456789ABCDEFGHIJKLMNOPQRSTUVWXYZ''"

definition CHAR_LEN :: nat where
  "CHAR_LEN = length CHARS"

section \<open>Configuration\<close>

text \<open>
  \<open>(args.trail as number) || 20\<close> and \<open>(args.fps as number) || 30\<close>: the parsed option is
  a number as \<open>parseInt\<close> returns it (or the parser's default, which is the same 20 or
  30), and \<open>||\<close> replaces both \<open>NaN\<close> and 0 by the default.
\<close>

definition or_default :: "number \<Rightarrow> int \<Rightarrow> number" where
  "or_default a d =
     (case a of
        Finite n \<Rightarrow> if n = 0 then Finite d else Finite n
      | Infinity \<Rightarrow> Infinity
      | NaN \<Rightarrow> Finite d)"

definition TRAIL_LENGTH :: "number \<Rightarrow> number" where
  "TRAIL_LENGTH trail = or_default trail 20"

definition TARGET_FPS :: "number \<Rightarrow> number" where
  "TARGET_FPS fps = or_default fps 30"

section \<open>The colour gradient\<close>

text \<open>
  \<open>COLORS\<close> has one entry for each trail index \<open>i < TRAIL_LENGTH\<close>. The functions below
  take the trail length \<open>n\<close> as a natural number (\<open>new Array(TRAIL_LENGTH)\<close> throws on a
  negative length, before anything is drawn). With \<open>n = 1\<close> the source computes
  \<open>0 / 0\<close>, which is \<open>NaN\<close>, and so are the three channels: they are \<open>None\<close> then.
\<close>

definition Math_round :: "rat \<Rightarrow> int" where
  "Math_round x = \<lfloor>x + 1 / 2\<rfloor>"

definition gradient_t :: "nat \<Rightarrow> nat \<Rightarrow> rat option" where
  "gradient_t n i = (if n = 1 then None else Some (of_nat i / (of_nat n - 1)))"

definition channels :: "nat \<Rightarrow> nat \<Rightarrow> (int \<times> int \<times> int) option" where
  "channels n i =
     (case gradient_t n i of
        None \<Rightarrow> None
      | Some t \<Rightarrow>
          (let ease = t * t * (3 - 2 * t);
               r = Math_round (255 * (1 - t) ^ 3);
               g = Math_round (255 - 180 * ease);
               b = Math_round (255 * (1 - t) ^ 4)
           in Some (r, g, b)))"

definition color :: "nat \<Rightarrow> nat \<Rightarrow> jstring" where
  "color n i =
     (case channels n i of
        None \<Rightarrow> ESC @ ascii ''38;2;NaN;NaN;NaNm''
      | Some (r, g, b) \<Rightarrow> rgb r g b)"

definition COLORS :: "nat \<Rightarrow> jstring list" where
  "COLORS n = map (color n) [0..<n]"

section \<open>Drops\<close>

text \<open>
  \<open>interface Drop\<close>. The field \<open>y\<close> is called \<open>pos_y\<close> here. It only ever holds
  integers (it starts at the negation of a 32-bit integer and is incremented by 1), so
  it is an \<open>int\<close>. \<open>chars\<close> is a \<open>Uint16Array\<close>: a list of numbers below \<open>2^16\<close>.
\<close>

record Drop =
  pos_y :: int
  speed :: rat
  chars :: "nat list"
  nextUpdate :: rat

text \<open>\<open>n | 0\<close> on an integer-valued number.\<close>

definition int32 :: "int \<Rightarrow> int" where
  "int32 n = sint (word_of_int n :: u32)"

text \<open>A store into a \<open>Uint16Array\<close> keeps the low 16 bits; outside the array it does nothing.\<close>

definition toUint16 :: "int \<Rightarrow> nat" where
  "toUint16 v = nat (v mod 65536)"

definition store :: "nat list \<Rightarrow> int \<Rightarrow> int \<Rightarrow> nat list" where
  "store a i v = (if 0 \<le> i \<and> i < int (length a) then a[nat i := toUint16 v] else a)"

text \<open>\<open>randomChar()\<close>, and the same expression inside \<open>createDrop\<close>.\<close>

definition randomChar :: "rng \<Rightarrow> int \<times> rng" where
  "randomChar g = (let (r, g') = random g in (toInt32 (r * of_nat CHAR_LEN), g'))"

text \<open>The loop that fills the fresh \<open>Uint16Array(TRAIL_LENGTH)\<close>, slot 0 first.\<close>

fun fill_chars :: "nat \<Rightarrow> rng \<Rightarrow> nat list \<times> rng" where
  "fill_chars 0 g = ([], g)"
| "fill_chars (Suc n) g =
     (let (c, g1) = randomChar g;
          (cs, g2) = fill_chars n g1
      in (toUint16 c # cs, g2))"

text \<open>
  \<open>createDrop(randomStart)\<close>, with the trail length \<open>n\<close> and \<open>this.height\<close> = \<open>h\<close>. The
  draws are made in the order of the source: the glyphs, then the start offset (only
  when \<open>randomStart\<close>), then the speed.
\<close>

definition createDrop :: "nat \<Rightarrow> nat \<Rightarrow> bool \<Rightarrow> rng \<Rightarrow> Drop \<times> rng" where
  "createDrop n h randomStart g =
     (let (cs, g1) = fill_chars n g;
          (y0, g2) = (if randomStart
                      then (let (r, g') = random g1 in (- toInt32 (r * of_nat h), g'))
                      else (- int n, g1));
          (r, g3) = random g2
      in (\<lparr>pos_y = y0, speed = 3 / 10 + r * (7 / 10), chars = cs, nextUpdate = 0\<rparr>, g3))"

section \<open>One column of a render pass\<close>

text \<open>
  The body of the \<open>for x\<close> loop in \<open>render\<close> is split into its three parts: the advance
  of a drop that is due, the recycling check, and the drawing of the visible trail.
  Each takes and returns what it touches: the drop, the random source, and the buffer
  of pending writes. The speed of a drop is never 0 (\<open>createDrop\<close> makes it at least
  0.3), so \<open>100 / drop.speed\<close> is an ordinary quotient.
\<close>

definition advance :: "nat \<Rightarrow> nat \<Rightarrow> rat \<Rightarrow> int \<Rightarrow> Drop \<Rightarrow> rng \<Rightarrow> jstring list
    \<Rightarrow> Drop \<times> rng \<times> jstring list" where
  "advance n h now col d g buf =
     (if now \<ge> nextUpdate d then
        (let eraseRow = int32 (pos_y d) - int n;
             buf1 = (if eraseRow \<ge> 1 \<and> eraseRow \<le> int h
                     then buf @ [moveTo eraseRow col @ ascii '' ''] else buf);
             d1 = d\<lparr>pos_y := pos_y d + 1, nextUpdate := now + 100 / speed d\<rparr>;
             (r, g1) = random g
         in if r < 3 / 10 then
              (let (r2, g2) = random g1;
                   (c, g3) = randomChar g2
               in (d1\<lparr>chars := store (chars d1) (toInt32 (r2 * of_nat n)) c\<rparr>, g3, buf1))
            else (d1, g1, buf1))
      else (d, g, buf))"

definition recycle :: "nat \<Rightarrow> nat \<Rightarrow> Drop \<Rightarrow> rng \<Rightarrow> Drop \<times> rng" where
  "recycle n h d g =
     (if pos_y d - int n > int h then createDrop n h False g else (d, g))"

text \<open>
  \<open>CHARS[drop.chars[i]]\<close>: a one-character string, or \<open>undefined\<close> (printed as such by the
  template literal) when either index is out of range.
\<close>

definition glyph :: "nat list \<Rightarrow> nat \<Rightarrow> jstring" where
  "glyph cs i =
     (if i < length cs \<and> cs ! i < CHAR_LEN then [CHARS ! (cs ! i)] else ascii ''undefined'')"

definition draw_cell :: "nat \<Rightarrow> nat \<Rightarrow> int \<Rightarrow> Drop \<Rightarrow> nat \<Rightarrow> rng \<times> jstring list
    \<Rightarrow> rng \<times> jstring list" where
  "draw_cell n h col d i = (\<lambda>(g, buf).
     (let row = int32 (pos_y d) - int i
      in if row < 1 \<or> row > int h then (g, buf)
         else if i = 0 then
           (let (r, g') = random g
            in if r < 1 / 10
               then (g', buf @ [moveTo row col @ rgb 255 255 255 @ glyph (chars d) i])
               else (g', buf @ [moveTo row col @ COLORS n ! i @ glyph (chars d) i]))
         else (g, buf @ [moveTo row col @ COLORS n ! i @ glyph (chars d) i])))"

definition draw_trail :: "nat \<Rightarrow> nat \<Rightarrow> int \<Rightarrow> Drop \<Rightarrow> rng \<Rightarrow> jstring list \<Rightarrow> rng \<times> jstring list" where
  "draw_trail n h col d g buf = fold (draw_cell n h col d) [0..<n] (g, buf)"

definition render_column :: "nat \<Rightarrow> nat \<Rightarrow> rat \<Rightarrow> nat \<Rightarrow> Drop \<Rightarrow> rng \<Rightarrow> jstring list
    \<Rightarrow> Drop \<times> rng \<times> jstring list" where
  "render_column n h now x d g buf =
     (let col = int x + 1;
          (d1, g1, buf1) = advance n h now col d g buf;
          (d2, g2) = recycle n h d1 g1;
          (g3, buf3) = draw_trail n h col d2 g2 buf1
      in (d2, g3, buf3))"

section \<open>The engine\<close>

text \<open>
  The fields of \<open>class MatrixRain\<close>, together with the three pieces of global state the
  program acts on: the random source, what has been written to the terminal (one entry
  for each \<open>Bun.write\<close>), and the exit code once \<open>process.exit\<close> has been called.
\<close>

record state =
  width :: nat
  height :: nat
  drops :: "Drop list"
  buffer :: "jstring list"
  lastFrame :: rat
  running :: bool
  rng_state :: rng
  stdout :: "jstring list"
  exit_code :: "int option"

datatype error = TypeError | RangeError

text \<open>\<open>process.stdout.columns || 80\<close>: the default replaces \<open>undefined\<close> and 0.\<close>

definition or_dim :: "nat option \<Rightarrow> nat \<Rightarrow> nat" where
  "or_dim c d = (case c of None \<Rightarrow> d | Some k \<Rightarrow> if k = 0 then d else k)"

text \<open>The constructor: one drop for each column, each created with \<open>randomStart = true\<close>.\<close>

fun initial_drops :: "nat \<Rightarrow> nat \<Rightarrow> nat \<Rightarrow> rng \<Rightarrow> Drop list \<times> rng" where
  "initial_drops n h 0 g = ([], g)"
| "initial_drops n h (Suc k) g =
     (let (d, g1) = createDrop n h True g;
          (ds, g2) = initial_drops n h k g1
      in (d # ds, g2))"

definition new_MatrixRain :: "nat \<Rightarrow> nat option \<Rightarrow> nat option \<Rightarrow> rng \<Rightarrow> state" where
  "new_MatrixRain n columns rows g =
     (let w = or_dim columns 80;
          h = or_dim rows 24;
          (ds, g') = initial_drops n h w g
      in \<lparr>width = w, height = h, drops = ds, buffer = [], lastFrame = 0, running = True,
          rng_state = g', stdout = [], exit_code = None\<rparr>)"

text \<open>
  \<open>render(now)\<close>. The columns are visited in ascending order; \<open>this.drops[x]\<close> is
  \<open>undefined\<close> beyond the end of the array, and reading a field of it throws.
\<close>

fun render_columns :: "nat \<Rightarrow> nat \<Rightarrow> rat \<Rightarrow> nat list \<Rightarrow> Drop list \<Rightarrow> rng \<Rightarrow> jstring list
    \<Rightarrow> error + (Drop list \<times> rng \<times> jstring list)" where
  "render_columns n h now [] ds g buf = Inr (ds, g, buf)"
| "render_columns n h now (x # xs) ds g buf =
     (if x < length ds then
        (let (d, g', buf') = render_column n h now x (ds ! x) g buf
         in render_columns n h now xs (ds[x := d]) g' buf')
      else Inl TypeError)"

definition render :: "nat \<Rightarrow> rat \<Rightarrow> state \<Rightarrow> error + state" where
  "render n now s =
     (case render_columns n (height s) now [0..<width s] (drops s) (rng_state s) [] of
        Inl e \<Rightarrow> Inl e
      | Inr (ds, g, buf) \<Rightarrow>
          Inr (s\<lparr>drops := ds, rng_state := g, buffer := buf, stdout := stdout s @ [concat buf]\<rparr>))"

text \<open>The \<open>resize\<close> handler.\<close>

definition resize_drops :: "nat \<Rightarrow> nat \<Rightarrow> Drop list \<Rightarrow> nat \<Rightarrow> rng \<Rightarrow> Drop list \<times> rng" where
  "resize_drops n h oldDrops newWidth g =
     fold (\<lambda>x (ds, g). if x < length oldDrops then (ds @ [oldDrops ! x], g)
                        else (let (d, g') = createDrop n h True g in (ds @ [d], g')))
       [0..<newWidth] ([], g)"

definition on_resize :: "nat \<Rightarrow> nat option \<Rightarrow> nat option \<Rightarrow> state \<Rightarrow> state" where
  "on_resize n columns rows s =
     (let newWidth = or_dim columns 80;
          newHeight = or_dim rows 24;
          (ds, g) = (if newWidth \<noteq> width s
                     then resize_drops n (height s) (drops s) newWidth (rng_state s)
                     else (drops s, rng_state s))
      in s\<lparr>drops := ds, rng_state := g, width := newWidth, height := newHeight,
           stdout := stdout s @ [CLEAR_SCREEN]\<rparr>)"

text \<open>\<open>stop()\<close>.\<close>

definition stop :: "state \<Rightarrow> state" where
  "stop s = s\<lparr>running := False,
              stdout := stdout s @ [RESET @ SHOW_CURSOR @ CLEAR_SCREEN @ moveTo 1 1],
              exit_code := Some 0\<rparr>"

section \<open>The frame scheduler\<close>

text \<open>
  \<open>run()\<close> writes the start-up sequence, registers the handlers and enters the loop.
  One iteration of the loop reads the clock and renders if the frame is due; between two
  iterations (during \<open>Bun.sleep\<close>) the handlers of pending events run, each to completion.
  A run is therefore a sequence of events: a loop iteration with its clock reading, a
  resize with the new terminal size, or a signal. Nothing runs once the process has exited.
\<close>

definition run_start :: "state \<Rightarrow> state" where
  "run_start s = s\<lparr>stdout := stdout s @ [HIDE_CURSOR @ CLEAR_SCREEN]\<rparr>"

text \<open>
  \<open>frameTime\<close> is \<open>1000 / TARGET_FPS\<close>, a double: the quotient rounded, and 0 when
  \<open>TARGET_FPS\<close> is infinite. (\<open>TARGET_FPS\<close> is never 0 or \<open>NaN\<close>; the value given for them
  here is not used.)

  \<open>elapsed_enough fps prev now\<close> is the test \<open>now - prev >= frameTime\<close> as the doubles
  decide it. The clock readings are doubles; their difference is rounded, and it is an
  infinity, of the sign of the exact difference, when it overflows. With \<open>TARGET_FPS\<close> 0
  the frame time would be infinite, which only an infinite difference reaches, and with
  \<open>NaN\<close> the comparison would be false.
\<close>

definition frameTime :: "number \<Rightarrow> rat" where
  "frameTime fps = (case fps of Finite k \<Rightarrow> double (1000 / of_int k) | Infinity \<Rightarrow> 0 | NaN \<Rightarrow> 0)"

definition elapsed_enough :: "number \<Rightarrow> rat \<Rightarrow> rat \<Rightarrow> bool" where
  "elapsed_enough fps prev now =
     (if fps = NaN then False
      else if overflows (now - prev) then 0 < now - prev
      else fps \<noteq> Finite 0 \<and> double (now - prev) \<ge> frameTime fps)"

definition frame_due :: "number \<Rightarrow> rat \<Rightarrow> state \<Rightarrow> bool" where
  "frame_due fps now s = elapsed_enough fps (lastFrame s) now"

definition loop_iteration :: "nat \<Rightarrow> number \<Rightarrow> rat \<Rightarrow> state \<Rightarrow> error + state" where
  "loop_iteration n fps now s =
     (if frame_due fps now s then
        (case render n now s of
           Inl e \<Rightarrow> Inl e
         | Inr s' \<Rightarrow> Inr (s'\<lparr>lastFrame := now\<rparr>))
      else Inr s)"

datatype event = Tick rat | Resize "nat option" "nat option" | Signal

definition step :: "nat \<Rightarrow> number \<Rightarrow> state \<Rightarrow> event \<Rightarrow> error + state" where
  "step n fps s e =
     (if exit_code s \<noteq> None then Inr s
      else case e of
             Tick now \<Rightarrow> (if running s then loop_iteration n fps now s else Inr s)
           | Resize columns rows \<Rightarrow> Inr (on_resize n columns rows s)
           | Signal \<Rightarrow> Inr (stop s))"

fun run_events :: "nat \<Rightarrow> number \<Rightarrow> state \<Rightarrow> event list \<Rightarrow> error + state" where
  "run_events n fps s [] = Inr s"
| "run_events n fps s (e # es) =
     (case step n fps s e of
        Inl err \<Rightarrow> Inl err
      | Inr s' \<Rightarrow> run_events n fps s' es)"

text \<open>
  The whole program, from the parsed options \<open>args.seed\<close> (\<open>None\<close> when \<open>--seed\<close> is
  absent), \<open>args.fps\<close> and \<open>args.trail\<close>, the environment's \<open>Math.random\<close> stream, the
  terminal size at start-up and the events. \<open>new Array(TRAIL_LENGTH)\<close> throws unless the
  length is an unsigned 32-bit integer.
\<close>

definition main :: "number option \<Rightarrow> number \<Rightarrow> number \<Rightarrow> (nat \<Rightarrow> unit_fraction)
    \<Rightarrow> nat option \<Rightarrow> nat option \<Rightarrow> event list \<Rightarrow> error + state" where
  "main seed fps trail env columns rows es =
     (case TRAIL_LENGTH trail of
        Finite n \<Rightarrow>
          if n < 0 \<or> n > 4294967295 then Inl RangeError
          else run_events (nat n) (TARGET_FPS fps)
                 (run_start (new_MatrixRain (nat n) columns rows (random_source seed env))) es
      | Infinity \<Rightarrow> Inl RangeError
      | NaN \<Rightarrow> Inl RangeError)"

section \<open>The gradient as the specification words it\<close>

text \<open>
  With \<open>t = i / (trailLength - 1)\<close> and \<open>smoothstep(t) = t\<^sup>2 (3 - 2 t)\<close>: red is
  \<open>255 (1 - t)\<^sup>3\<close>, green is \<open>255 - 180 smoothstep(t)\<close>, blue is \<open>255 (1 - t)\<^sup>4\<close>,
  each rounded to the nearest integer and clamped to \<open>[0, 255]\<close>.
\<close>

definition spec_channel :: "rat \<Rightarrow> int" where
  "spec_channel x = max 0 (min 255 (round x))"


section \<open>Observing a run\<close>

text \<open>
  \<open>renders fps s e\<close>: the event \<open>e\<close>, handled in state \<open>s\<close>, is a loop iteration that
  calls \<open>render\<close> (the process is alive, the loop is running and the frame is due).
  \<open>render_times\<close> lists the clock readings of those iterations along a run, and
  \<open>paced fps prev ts\<close> says that each time in \<open>ts\<close> passes the test \<open>elapsed_enough\<close>
  against the one before it, the first against \<open>prev\<close>.
\<close>

definition renders :: "number \<Rightarrow> state \<Rightarrow> event \<Rightarrow> bool" where
  "renders fps s e =
     (case e of
        Tick now \<Rightarrow> exit_code s = None \<and> running s \<and> frame_due fps now s
      | _ \<Rightarrow> False)"

fun render_times :: "nat \<Rightarrow> number \<Rightarrow> state \<Rightarrow> event list \<Rightarrow> rat list" where
  "render_times n fps s [] = []"
| "render_times n fps s (e # es) =
     (case e of Tick now \<Rightarrow> if renders fps s e then [now] else [] | _ \<Rightarrow> [])
     @ (case step n fps s e of Inl err \<Rightarrow> [] | Inr s' \<Rightarrow> render_times n fps s' es)"

fun paced :: "number \<Rightarrow> rat \<Rightarrow> rat list \<Rightarrow> bool" where
  "paced fps prev [] = True"
| "paced fps prev (t # ts) = (elapsed_enough fps prev t \<and> paced fps t ts)"

section \<open>Properties of doubles\<close>

lemma floor_rat_numeral: "\<lfloor>numeral a / numeral b :: rat\<rfloor> = numeral a div numeral b"
  using floor_divide_of_int_eq [of "numeral a" "numeral b", where ?'a = rat] by simp

lemma of_int_le_pow2: "(m :: int) \<le> 2 ^ k \<Longrightarrow> (of_int m :: rat) \<le> 2 ^ k"
proof -
  assume "m \<le> 2 ^ k"
  then have "(of_int m :: rat) \<le> of_int (2 ^ k)" by (simp only: of_int_le_iff)
  also have "(of_int (2 ^ k) :: rat) = 2 ^ k" by simp
  finally show ?thesis .
qed

lemma pow2_le_of_int: "2 ^ k \<le> (m :: int) \<Longrightarrow> (2 :: rat) ^ k \<le> of_int m"
proof -
  assume "2 ^ k \<le> m"
  then have "(of_int (2 ^ k) :: rat) \<le> of_int m" by (simp only: of_int_le_iff)
  moreover have "(of_int (2 ^ k) :: rat) = 2 ^ k" by simp
  ultimately show ?thesis by simp
qed

lemma binade_bounds:
  assumes "0 < x"
  shows "2 powi binade x \<le> x \<and> x < 2 powi (binade x + 1)"
proof (cases "1 \<le> x")
  case True
  define n where "n = \<lfloor>x\<rfloor>"
  have n: "0 < n" using True by (simp add: n_def)
  have b: "1 \<le> bitlen n" using n bitlen_eq_zero_iff [of n] bitlen_nonneg [of n] by linarith
  have bd: "2 ^ nat (bitlen n - 1) \<le> n" "n < 2 ^ nat (bitlen n)"
    using bitlen_bounds [OF n] by simp_all
  have "(of_int n :: rat) \<le> x" by (simp add: n_def)
  moreover have "(2 :: rat) ^ nat (bitlen n - 1) \<le> of_int n"
    using bd(1) by (rule pow2_le_of_int)
  ultimately have lo: "(2 :: rat) ^ nat (bitlen n - 1) \<le> x" by (rule order_trans [rotated])
  have "n + 1 \<le> 2 ^ nat (bitlen n)" using bd(2) by simp
  then have "(of_int (n + 1) :: rat) \<le> 2 ^ nat (bitlen n)" by (rule of_int_le_pow2)
  moreover have "x < of_int (n + 1)" unfolding n_def by linarith
  ultimately have hi: "x < (2 :: rat) ^ nat (bitlen n)" by (rule less_le_trans [rotated])
  have e: "binade x = bitlen n - 1" using True by (simp add: binade_def n_def)
  have p1: "(2 :: rat) powi (bitlen n - 1) = 2 ^ nat (bitlen n - 1)"
    using b by (simp add: power_int_def)
  have p2: "(2 :: rat) powi (bitlen n - 1 + 1) = 2 ^ nat (bitlen n)"
    using b by (simp add: power_int_def)
  show ?thesis unfolding e p1 p2 using lo hi by simp
next
  case False
  define c where "c = \<lceil>1 / x\<rceil>"
  have x1: "x < 1" using False by simp
  have inv: "1 < 1 / x" using assms x1 by simp
  have c2: "2 \<le> c" unfolding c_def using inv by linarith
  define j where "j = bitlen (c - 1)"
  have c1: "0 < c - 1" using c2 by simp
  have j1: "1 \<le> j" using c1 bitlen_eq_zero_iff [of "c - 1"] bitlen_nonneg [of "c - 1"]
    unfolding j_def by linarith
  have bd: "2 ^ nat (j - 1) \<le> c - 1" "c - 1 < 2 ^ nat j"
    using bitlen_bounds [OF c1] by (simp_all add: j_def)
  have up: "1 / x \<le> of_int c" unfolding c_def by linarith
  have "c \<le> 2 ^ nat j" using bd(2) by simp
  then have "(of_int c :: rat) \<le> 2 ^ nat j" by (rule of_int_le_pow2)
  then have a: "1 / x \<le> 2 ^ nat j" using up by (rule order_trans [rotated])
  have "of_int (c - 1) < 1 / x" unfolding c_def by linarith
  moreover have "(2 :: rat) ^ nat (j - 1) \<le> of_int (c - 1)"
    using bd(1) by (rule pow2_le_of_int)
  ultimately have b: "2 ^ nat (j - 1) < 1 / x" by (rule le_less_trans [rotated])
  have lo: "1 / 2 ^ nat j \<le> x"
    using a assms by (simp add: field_simps)
  have hi: "x < 1 / 2 ^ nat (j - 1)"
    using b assms by (simp add: field_simps)
  have e: "binade x = - j" using False by (simp add: binade_def c_def j_def)
  have p1: "(2 :: rat) powi (- j) = 1 / 2 ^ nat j"
    using j1 by (simp add: power_int_def field_simps)
  have p2: "(2 :: rat) powi (- j + 1) = 1 / 2 ^ nat (j - 1)"
  proof (cases "j = 1")
    case True
    then show ?thesis by simp
  next
    case False
    then have "- j + 1 < 0" using j1 by simp
    moreover have "nat (- (- j + 1)) = nat (j - 1)" by simp
    ultimately show ?thesis by (simp add: power_int_def field_simps)
  qed
  show ?thesis unfolding e p1 p2 using lo hi by simp
qed

lemma binade_unique:
  assumes "0 < x" and "2 powi e \<le> x" and "x < 2 powi (e + 1)"
  shows "binade x = e"
proof (rule ccontr)
  assume ne: "binade x \<noteq> e"
  note b = binade_bounds [OF assms(1)]
  show False
  proof (cases "binade x < e")
    case True
    then have "binade x + 1 \<le> e" by simp
    then have "(2 :: rat) powi (binade x + 1) \<le> 2 powi e"
      by (intro power_int_increasing) simp_all
    then show False using b assms(2) by simp
  next
    case False
    then have "e + 1 \<le> binade x" using ne by simp
    then have "(2 :: rat) powi (e + 1) \<le> 2 powi binade x"
      by (intro power_int_increasing) simp_all
    then show False using b assms(3) by simp
  qed
qed

lemma round_even_of_int: "round_even (of_int m) = m"
  by (simp add: round_even_def)

lemma double_eqI:
  assumes "2 powi e \<le> \<bar>x\<bar>" and "\<bar>x\<bar> < 2 powi (e + 1)" and "- 1022 \<le> e"
  shows "double x = of_int (round_even (x / 2 powi (e - 52))) * 2 powi (e - 52)"
proof -
  have pos: "0 < \<bar>x\<bar>"
    using assms(1) zero_less_power_int [of "2 :: rat" e] by linarith
  then have "x \<noteq> 0" by simp
  moreover have "binade \<bar>x\<bar> = e" using pos assms(1,2) by (rule binade_unique)
  ultimately show ?thesis using assms(3) by (simp add: double_def Let_def max_def)
qed

text \<open>A number that is a multiple of the spacing of the doubles around it is a double.\<close>

lemma double_exact:
  assumes "2 powi e \<le> \<bar>x\<bar>" and "\<bar>x\<bar> < 2 powi (e + 1)" and "- 1022 \<le> e"
    and "x = of_int m * 2 powi (e - 52)"
  shows "double x = x"
proof -
  have "x / 2 powi (e - 52) = of_int m"
    using assms(4) by simp
  then show ?thesis
    using double_eqI [OF assms(1,2,3)] assms(4) by (simp add: round_even_of_int)
qed

lemma double_of_int:
  assumes "\<bar>k\<bar> \<le> 2 ^ 53"
  shows "double (of_int k) = of_int k"
proof (cases "k = 0")
  case True
  then show ?thesis by (simp add: double_def)
next
  case False
  define x :: rat where "x = of_int k"
  define e where "e = binade \<bar>x\<bar>"
  have pos: "0 < \<bar>x\<bar>" using False by (simp add: x_def)
  have b: "2 powi e \<le> \<bar>x\<bar>" "\<bar>x\<bar> < 2 powi (e + 1)"
    using binade_bounds [OF pos] by (simp_all add: e_def)
  have one: "1 \<le> \<bar>x\<bar>"
  proof -
    have "1 \<le> \<bar>k\<bar>" using False by simp
    then have "(of_int 1 :: rat) \<le> of_int \<bar>k\<bar>" by (simp only: of_int_le_iff)
    then show ?thesis by (simp add: x_def)
  qed
  have e0: "0 \<le> e"
  proof (rule ccontr)
    assume "\<not> 0 \<le> e"
    then have "e + 1 \<le> 0" by simp
    then have "(2 :: rat) powi (e + 1) \<le> 2 powi 0" by (intro power_int_increasing) simp_all
    then show False using b(2) one by simp
  qed
  have le: "\<bar>x\<bar> \<le> 2 ^ 53"
  proof -
    have "(of_int \<bar>k\<bar> :: rat) \<le> 2 ^ 53" using assms by (rule of_int_le_pow2)
    then show ?thesis by (simp add: x_def)
  qed
  have e53: "e \<le> 53"
  proof (rule ccontr)
    assume "\<not> e \<le> 53"
    then have "54 \<le> e" by simp
    then have "(2 :: rat) powi 54 \<le> 2 powi e" by (intro power_int_increasing) simp_all
    then show False using b(1) le by simp
  qed
  show ?thesis
  proof (cases "e \<le> 52")
    case True
    have xm: "x = of_int (k * 2 ^ nat (52 - e)) * 2 powi (e - 52)"
    proof -
      have "(2 :: rat) powi (e - 52) = 1 / 2 ^ nat (52 - e)"
        using True by (cases "e = 52") (simp_all add: power_int_def field_simps)
      then show ?thesis by (simp add: x_def)
    qed
    have "- 1022 \<le> e" using e0 by simp
    from b(1) b(2) this xm have "double x = x" by (rule double_exact)
    then show ?thesis by (simp add: x_def)
  next
    case False
    then have e: "e = 53" using e53 by simp
    have "\<bar>x\<bar> = 2 ^ 53" using b(1) le by (simp add: e)
    then have "\<bar>k\<bar> = 2 ^ 53"
    proof -
      assume "\<bar>x\<bar> = 2 ^ 53"
      then have "(of_int \<bar>k\<bar> :: rat) = of_int (2 ^ 53)" by (simp add: x_def)
      then show ?thesis by (simp only: of_int_eq_iff)
    qed
    then have "k = 2 ^ 53 \<or> k = - (2 ^ 53)" by linarith
    then have "even k" by auto
    then obtain j where j: "k = 2 * j" by (auto elim: evenE)
    have xm: "x = of_int j * 2 powi (e - 52)" by (simp add: x_def j e)
    have "- 1022 \<le> e" using e0 by simp
    from b(1) b(2) this xm have "double x = x" by (rule double_exact)
    then show ?thesis by (simp add: x_def)
  qed
qed

lemma double_numeral: "numeral w \<le> (2 :: int) ^ 53 \<Longrightarrow> double (numeral w) = numeral w"
  using double_of_int [of "numeral w"] by simp

lemma parseInt_exact:
  assumes "\<bar>k\<bar> \<le> 2 ^ 53"
  shows "parseInt (Some k) = Finite k"
proof -
  have d: "double (of_int k) = of_int k" using assms by (rule double_of_int)
  have "(of_int \<bar>k\<bar> :: rat) \<le> 2 ^ 53" using assms by (rule of_int_le_pow2)
  then have "\<bar>of_int k :: rat\<bar> < 2 ^ 1024" by simp
  then show ?thesis by (simp add: parseInt_def overflows_def d)
qed

text \<open>The doubles used below.\<close>

lemma double_frame_30: "double (100 / 3) = 4691249611844267 / 140737488355328"
  using double_eqI [of 5 "100 / 3"]
  by (simp add: round_even_def Let_def floor_rat_numeral)

lemma double_frame_90: "double (100 / 9) = 3127499741229511 / 281474976710656"
  using double_eqI [of 3 "100 / 9"]
  by (simp add: round_even_def Let_def floor_rat_numeral)

lemma double_frame_90_exact:
  "double (3127499741229511 / 281474976710656) = 3127499741229511 / 281474976710656"
  using double_eqI [of 3 "3127499741229511 / 281474976710656"]
  by (simp add: round_even_def Let_def floor_rat_numeral)

lemma double_below_tie: "double 18014394214514690 = 18014394214514690"
  using double_eqI [of 53 18014394214514690]
  by (simp add: round_even_def Let_def floor_rat_numeral)

lemma double_tie: "double 18014398509481986 = 18014398509481984"
  using double_eqI [of 54 18014398509481986]
  by (simp add: round_even_def Let_def floor_rat_numeral)

lemma round_even_bounds:
  "of_int (round_even q) \<le> q + 1 / 2 \<and> q - 1 / 2 \<le> of_int (round_even q)"
proof -
  have f: "of_int \<lfloor>q\<rfloor> \<le> q" "q < of_int \<lfloor>q\<rfloor> + 1" by linarith+
  consider "round_even q = \<lfloor>q\<rfloor>" and "q - of_int \<lfloor>q\<rfloor> \<le> 1 / 2"
    | "round_even q = \<lfloor>q\<rfloor> + 1" and "1 / 2 \<le> q - of_int \<lfloor>q\<rfloor>"
    unfolding round_even_def Let_def by (cases "q - of_int \<lfloor>q\<rfloor> < 1 / 2"; cases "1 / 2 < q - of_int \<lfloor>q\<rfloor>"; cases "even \<lfloor>q\<rfloor>") auto
  then show ?thesis
  proof cases
    case 1
    have "(of_int (round_even q) :: rat) = of_int \<lfloor>q\<rfloor>" using 1(1) by simp
    then show ?thesis using 1(2) f by linarith
  next
    case 2
    have "(of_int (round_even q) :: rat) = of_int \<lfloor>q\<rfloor> + 1" using 2(1) by simp
    then show ?thesis using 2(2) f by linarith
  qed
qed

lemma pow2_pos: "(0 :: rat) < 2 powi e"
  by (rule zero_less_power_int) simp

lemma pow2_half: "(2 :: rat) powi (e - 52) / 2 = 2 powi e / 2 ^ 53"
proof -
  have "(2 :: rat) powi (e - 52) = 2 powi e / 2 powi 52"
    by (rule power_int_diff) simp
  then show ?thesis by simp
qed

text \<open>Rounding moves a number by at most half the spacing of the doubles around it.\<close>

lemma double_near:
  assumes "2 powi e \<le> \<bar>x\<bar>" and "\<bar>x\<bar> < 2 powi (e + 1)" and "- 1022 \<le> e"
  shows "\<bar>double x - x\<bar> \<le> \<bar>x\<bar> / 2 ^ 53"
proof -
  define u :: rat where "u = 2 powi (e - 52)"
  define r :: rat where "r = of_int (round_even (x / u))"
  have u: "0 < u" by (simp add: u_def pow2_pos)
  have d: "double x = r * u"
    using double_eqI [OF assms] by (simp add: u_def r_def)
  have "\<bar>r - x / u\<bar> \<le> 1 / 2"
    using round_even_bounds [of "x / u"] unfolding r_def by linarith
  then have "\<bar>r - x / u\<bar> * u \<le> 1 / 2 * u"
    using u by (intro mult_right_mono) simp_all
  moreover have "\<bar>r - x / u\<bar> * u = \<bar>r * u - x\<bar>"
  proof -
    have "\<bar>r - x / u\<bar> * u = \<bar>r - x / u\<bar> * \<bar>u\<bar>" using u by simp
    also have "\<dots> = \<bar>(r - x / u) * u\<bar>" by (simp add: abs_mult)
    also have "(r - x / u) * u = r * u - x" using u by (simp add: field_simps)
    finally show ?thesis .
  qed
  ultimately have "\<bar>double x - x\<bar> \<le> u / 2" by (simp add: d)
  also have "u / 2 = 2 powi e / 2 ^ 53" unfolding u_def by (rule pow2_half)
  also have "\<dots> \<le> \<bar>x\<bar> / 2 ^ 53" using assms(1) by (intro divide_right_mono) simp_all
  finally show ?thesis .
qed

lemma binade_at_least:
  assumes "2 powi m \<le> x"
  shows "m \<le> binade x"
proof (rule ccontr)
  assume "\<not> m \<le> binade x"
  then have "binade x + 1 \<le> m" by simp
  then have "(2 :: rat) powi (binade x + 1) \<le> 2 powi m"
    by (intro power_int_increasing) simp_all
  moreover have "0 < x" using assms pow2_pos [of m] by linarith
  ultimately show False using binade_bounds [of x] assms by linarith
qed

lemma double_normal:
  assumes "2 powi (- 1022) \<le> x"
  shows "x - x / 2 ^ 53 \<le> double x \<and> double x \<le> x + x / 2 ^ 53"
proof -
  have pos: "0 < x" using assms pow2_pos [of "- 1022"] by linarith
  have b: "2 powi binade x \<le> \<bar>x\<bar>" "\<bar>x\<bar> < 2 powi (binade x + 1)"
    using binade_bounds [OF pos] pos by simp_all
  have "\<bar>double x - x\<bar> \<le> \<bar>x\<bar> / 2 ^ 53"
    using b binade_at_least [OF assms] by (rule double_near)
  moreover have "\<bar>x\<bar> = x" using pos by simp
  ultimately have "\<bar>double x - x\<bar> \<le> x / 2 ^ 53" by (simp only:)
  then show ?thesis by linarith
qed

lemma double_nonpos:
  assumes "x \<le> 0"
  shows "double x \<le> 0"
proof (cases "x = 0")
  case True
  then show ?thesis by (simp add: double_def)
next
  case False
  define u :: rat where "u = 2 powi (max (binade \<bar>x\<bar>) (- 1022) - 52)"
  define r where "r = round_even (x / u)"
  have u: "0 < u" unfolding u_def by (rule pow2_pos)
  have "x / u < 0" using False assms u by (simp add: divide_neg_pos)
  then have "(of_int r :: rat) < of_int 1"
    using round_even_bounds [of "x / u"] unfolding r_def by simp
  then have "r < 1" by (simp only: of_int_less_iff)
  then have "(of_int r :: rat) \<le> 0" by simp
  then have "of_int r * u \<le> 0"
    using u by (simp add: mult_le_0_iff)
  moreover have "double x = of_int r * u"
    unfolding double_def Let_def u_def r_def using False by (simp only: if_False)
  ultimately show ?thesis by simp
qed

lemma double_subnormal:
  assumes "0 < x" and "x < 2 powi (- 1022)"
  shows "double x \<le> x + 2 powi (- 1022)"
proof -
  have "binade x < - 1022"
  proof (rule ccontr)
    assume "\<not> binade x < - 1022"
    then have "(2 :: rat) powi (- 1022) \<le> 2 powi binade x"
      by (intro power_int_increasing) simp_all
    then show False using binade_bounds [OF assms(1)] assms(2) by linarith
  qed
  moreover have ax: "\<bar>x\<bar> = x" using assms(1) by simp
  ultimately have m: "max (binade \<bar>x\<bar>) (- 1022) = - 1022" by (simp only: max_def) simp
  define t :: rat where "t = 2 powi (- 1022)"
  define u :: rat where "u = 2 powi (- 1022 - 52)"
  define r where "r = round_even (x / u)"
  have u: "0 < u" unfolding u_def by (rule pow2_pos)
  have "x \<noteq> 0" using assms(1) by simp
  then have d: "double x = of_int r * u"
    unfolding double_def Let_def m u_def r_def by (simp only: if_False)
  have "of_int r \<le> x / u + 1 / 2"
    using round_even_bounds [of "x / u"] unfolding r_def by simp
  then have "of_int r * u \<le> (x / u + 1 / 2) * u"
    using u by (intro mult_right_mono) simp_all
  also have "\<dots> = x + u / 2" using u by (simp add: field_simps)
  finally have 1: "double x \<le> x + u / 2" unfolding d .
  have 2: "u \<le> t"
    unfolding u_def t_def by (intro power_int_increasing) simp_all
  show ?thesis
    unfolding t_def [symmetric] using 1 2 u by linarith
qed

lemma double_nonneg:
  assumes "0 \<le> x"
  shows "0 \<le> double x"
proof (cases "x = 0")
  case True
  then show ?thesis by (simp add: double_def)
next
  case False
  define u :: rat where "u = 2 powi (max (binade \<bar>x\<bar>) (- 1022) - 52)"
  define r where "r = round_even (x / u)"
  have u: "0 < u" unfolding u_def by (rule pow2_pos)
  have "0 < x / u" using False assms u by simp
  then have "(of_int (- 1) :: rat) < of_int r"
    using round_even_bounds [of "x / u"] unfolding r_def by simp
  then have "- 1 < r" by (simp only: of_int_less_iff)
  then have "(0 :: rat) \<le> of_int r" by simp
  then have "0 \<le> of_int r * u"
    using u by simp
  moreover have "double x = of_int r * u"
    unfolding double_def Let_def u_def r_def using False by (simp only: if_False)
  ultimately show ?thesis by simp
qed

section \<open>Properties of the generator\<close>

lemma unsigned_fraction_range: "0 \<le> unsigned_fraction w \<and> unsigned_fraction w < 1"
proof -
  have "unat w < 4294967296"
    using unsigned_less [of w, where 'a = nat] by simp
  then have "(of_nat (unat w) :: rat) < of_nat 4294967296"
    by (simp only: of_nat_less_iff)
  then show ?thesis
    by (simp add: unsigned_fraction_def del: of_nat_unat)
qed

lemma mulberry32_next_range:
  "0 \<le> fst (mulberry32_next a) \<and> fst (mulberry32_next a) < 1"
  by (simp add: mulberry32_next_def Let_def unsigned_fraction_range)

lemma random_range: "0 \<le> fst (random g) \<and> fst (random g) < 1"
proof (cases g)
  case (Seeded a)
  then show ?thesis
    using mulberry32_next_range [of a] by (simp add: case_prod_beta)
next
  case (MathRandom f)
  then show ?thesis
    using Rep_unit_fraction [of "f 0"] by simp
qed

lemma outputs_range: "r \<in> set (outputs n g) \<Longrightarrow> 0 \<le> r \<and> r < 1"
proof (induction n arbitrary: g)
  case 0
  then show ?case by simp
next
  case (Suc n)
  then show ?case
    using random_range [of g] by (auto simp: case_prod_beta)
qed

lemma mulberry32_wrap: "mulberry32 (Finite (s + 4294967296)) = mulberry32 (Finite s)"
proof -
  have "(word_of_int (s + 2 ^ 32) :: u32) = word_of_int s"
    by (simp add: word_of_int_eq_iff take_bit_eq_mod)
  then show ?thesis by (simp add: mulberry32_def)
qed

lemma random_source_seeded: "random_source (Some s) env = Seeded (mulberry32 s)"
  by (simp add: random_source_def)

section \<open>Determinism of seeded runs\<close>

lemma seeded_state: "snd (random (Seeded a)) = Seeded (a + 0x6D2B79F5)"
  by (simp add: mulberry32_next_def Let_def)

text \<open>
  Claim C1. A call of the seeded generator is a function of its state, the 32-bit
  integer \<open>a\<close>, which it advances by a constant. With a seed, the numbers drawn and the
  whole run are functions of the seed, the options, the terminal size and the events (the
  clock readings among them): the environment's \<open>Math.random\<close> stream, the only other
  input, has no influence, so two runs that agree on the former agree on every draw and
  on the state reached after any sequence of events, drops included. Every number drawn
  lies in \<open>[0, 1)\<close>.
\<close>

theorem seeded_run_deterministic:
  "random (Seeded a) = (fst (mulberry32_next a), Seeded (a + 0x6D2B79F5))
   \<and> (\<forall>r \<in> set (outputs k (random_source (Some s) env)). 0 \<le> r \<and> r < 1)
   \<and> outputs k (random_source (Some s) env) = outputs k (random_source (Some s) env')
   \<and> main (Some s) fps trail env columns rows es = main (Some s) fps trail env' columns rows es"
proof -
  have "random (Seeded a) = (fst (mulberry32_next a), Seeded (a + 0x6D2B79F5))"
    using seeded_state [of a] by (simp add: case_prod_beta prod_eq_iff)
  then show ?thesis
    unfolding main_def random_source_seeded
    by (simp add: outputs_range del: random.simps)
qed

theorem seeded_run_deterministic_witness:
  "outputs 1 (random_source (Some (Finite 42)) (\<lambda>_. Abs_unit_fraction 0)) = [2581720956 / 4294967296]
   \<and> 0 \<le> hd (outputs 1 (random_source (Some (Finite 42)) (\<lambda>_. Abs_unit_fraction 0)))
   \<and> hd (outputs 1 (random_source (Some (Finite 42)) (\<lambda>_. Abs_unit_fraction 0))) < 1"
proof -
  have "outputs 1 (random_source (Some (Finite 42)) (\<lambda>_. Abs_unit_fraction 0)) = [2581720956 / 4294967296]"
    by (simp add: random_source_def mulberry32_def mulberry32_next_def unsigned_fraction_def Let_def)
  then show ?thesis
    using seeded_run_deterministic [of 0 1 "Finite 42" "\<lambda>_. Abs_unit_fraction 0"] by simp
qed

section \<open>The seed is taken modulo \<open>2^32\<close>, after rounding to a double\<close>

lemma seed_draws:
  "random (Seeded 0) = (572152369 / 2147483648, Seeded 1831565813)"
  "random (Seeded 2) = (3153583793 / 4294967296, Seeded 1831565815)"
  by (simp_all add: mulberry32_next_def unsigned_fraction_def Let_def)

lemma parseInt_tie: "parseInt (Some (18014394214514690 + 2 ^ 32)) = Finite 18014398509481984"
  by (simp add: parseInt_def overflows_def double_tie)

text \<open>
  Claim C10, as amended. \<open>seed | 0\<close> keeps the low 32 bits of the seed, which is the
  double that \<open>parseInt\<close> made of the option's value. For integers \<open>s\<close> and \<open>s + 2^32\<close> that
  are both doubles (as all integers up to \<open>2^53\<close> in magnitude are), \<open>--seed=s\<close> and
  \<open>--seed=(s + 2^32)\<close> give the same initial generator state, hence the same sequence of
  numbers and the same run.
\<close>

theorem seed_modulo_2_32:
  assumes "parseInt (Some s) = Finite s" and "parseInt (Some (s + 2 ^ 32)) = Finite (s + 2 ^ 32)"
  shows "mulberry32 (parseInt (Some (s + 2 ^ 32))) = mulberry32 (parseInt (Some s))
    \<and> outputs k (random_source (Some (parseInt (Some (s + 2 ^ 32)))) env)
        = outputs k (random_source (Some (parseInt (Some s))) env)
    \<and> main (Some (parseInt (Some (s + 2 ^ 32)))) fps trail env columns rows es
        = main (Some (parseInt (Some s))) fps trail env columns rows es"
proof -
  have e: "mulberry32 (Finite (s + 2 ^ 32)) = mulberry32 (Finite s)"
    using mulberry32_wrap [of s] by simp
  show ?thesis
    unfolding assms main_def random_source_seeded e by simp
qed

theorem seed_modulo_2_32_witness:
  "parseInt (Some 42) = Finite 42 \<and> parseInt (Some (42 + 2 ^ 32)) = Finite (42 + 2 ^ 32)
   \<and> mulberry32 (parseInt (Some (42 + 2 ^ 32))) = 42
   \<and> mulberry32 (parseInt (Some 42)) = 42"
proof -
  have a: "parseInt (Some 42) = Finite 42" by (rule parseInt_exact) simp
  have b: "parseInt (Some (42 + 2 ^ 32)) = Finite (42 + 2 ^ 32)" by (rule parseInt_exact) simp
  have "mulberry32 (Finite 42) = 42" by (simp add: mulberry32_def)
  then show ?thesis
    using seed_modulo_2_32 [OF a b] a b by simp
qed

text \<open>
  The claim as it was stated, for every integer seed, fails: \<open>18014394214514690\<close> is a
  double and starts the generator in state 2, while \<open>18014394214514690 + 2^32\<close> lies
  halfway between two doubles and is rounded to \<open>2^54\<close>, which starts it in state 0; the
  first numbers drawn differ.
\<close>

theorem seed_modulo_2_32_counterexample:
  "parseInt (Some 18014394214514690) = Finite 18014394214514690
   \<and> mulberry32 (parseInt (Some 18014394214514690)) = 2
   \<and> mulberry32 (parseInt (Some (18014394214514690 + 2 ^ 32))) = 0
   \<and> fst (random (Seeded (mulberry32 (parseInt (Some (18014394214514690 + 2 ^ 32))))))
       \<noteq> fst (random (Seeded (mulberry32 (parseInt (Some 18014394214514690)))))"
proof -
  have a: "parseInt (Some 18014394214514690) = Finite 18014394214514690"
    by (simp add: parseInt_def overflows_def double_below_tie)
  have m: "mulberry32 (Finite 18014394214514690) = 2" "mulberry32 (Finite 18014398509481984) = 0"
    by (simp_all add: mulberry32_def)
  have "fst (random (Seeded 0)) \<noteq> fst (random (Seeded 2))"
    by (simp add: seed_draws del: random.simps)
  then show ?thesis
    unfolding a parseInt_tie m by simp
qed

section \<open>The colour gradient: entries and monotonicity\<close>

lemma Math_round_round: "Math_round x = round x"
  by (simp add: Math_round_def round_def)

lemma gradient_t_Some: "2 \<le> n \<Longrightarrow> gradient_t n i = Some (of_nat i / of_nat (n - 1))"
  by (simp add: gradient_t_def of_nat_diff)

lemma gradient_t_unit:
  assumes "2 \<le> n" "i < n"
  shows "0 \<le> (of_nat i / of_nat (n - 1) :: rat) \<and> (of_nat i / of_nat (n - 1) :: rat) \<le> 1"
proof -
  have "i \<le> n - 1" using assms by simp
  then have "(of_nat i :: rat) \<le> of_nat (n - 1)" by (simp only: of_nat_le_iff)
  moreover have "(0 :: rat) < of_nat (n - 1)" using assms by simp
  ultimately show ?thesis by (simp add: divide_le_eq_1)
qed

lemma round_channel_range:
  assumes "0 \<le> x" "x \<le> 255"
  shows "0 \<le> round (x :: rat) \<and> round x \<le> 255"
proof -
  have "round (0 :: rat) \<le> round x" using assms(1) by (rule round_mono)
  moreover have "round x \<le> round (255 :: rat)" using assms(2) by (rule round_mono)
  ultimately show ?thesis by simp
qed

lemma fade_range:
  assumes "0 \<le> (t :: rat)" "t \<le> 1"
  shows "0 \<le> 255 * (1 - t) ^ k \<and> 255 * (1 - t) ^ k \<le> 255"
proof -
  have "0 \<le> (1 - t) ^ k" using assms by simp
  moreover have "(1 - t) ^ k \<le> 1" using assms by (simp add: power_le_one)
  ultimately show ?thesis by simp
qed

lemma smoothstep_range:
  assumes "0 \<le> (t :: rat)" "t \<le> 1"
  shows "0 \<le> t * t * (3 - 2 * t) \<and> t * t * (3 - 2 * t) \<le> 1"
proof -
  have "0 \<le> t * t * (3 - 2 * t)" using assms by simp
  moreover have "1 - t * t * (3 - 2 * t) = (1 - t) * (1 - t) * (1 + 2 * t)"
    by (simp add: algebra_simps)
  moreover have "0 \<le> (1 - t) * (1 - t) * (1 + 2 * t)" using assms by simp
  ultimately show ?thesis by simp
qed

lemma green_range:
  assumes "0 \<le> (t :: rat)" "t \<le> 1"
  shows "0 \<le> 255 - 180 * (t * t * (3 - 2 * t)) \<and> 255 - 180 * (t * t * (3 - 2 * t)) \<le> 255"
  using smoothstep_range [OF assms] by simp

lemma spec_channel_id: "0 \<le> round x \<and> round x \<le> 255 \<Longrightarrow> spec_channel x = round x"
  by (simp add: spec_channel_def)

lemma channels_formula:
  assumes "2 \<le> n"
  shows "channels n i =
     (let t = of_nat i / of_nat (n - 1) :: rat
      in Some (round (255 * (1 - t) ^ 3),
               round (255 - 180 * (t * t * (3 - 2 * t))),
               round (255 * (1 - t) ^ 4)))"
  unfolding channels_def gradient_t_Some [OF assms] Math_round_round Let_def
  by simp

lemma channels_range:
  assumes "2 \<le> n" and "i < n" and "channels n i = Some (r, g, b)"
  shows "0 \<le> r \<and> r \<le> 255 \<and> 0 \<le> g \<and> g \<le> 255 \<and> 0 \<le> b \<and> b \<le> 255"
proof -
  define t :: rat where "t = of_nat i / of_nat (n - 1)"
  have t: "0 \<le> t" "t \<le> 1" using gradient_t_unit [OF assms(1,2)] by (simp_all add: t_def)
  have r: "0 \<le> round (255 * (1 - t) ^ 3) \<and> round (255 * (1 - t) ^ 3) \<le> 255"
    using fade_range [OF t, of 3] by (intro round_channel_range) simp_all
  have b: "0 \<le> round (255 * (1 - t) ^ 4) \<and> round (255 * (1 - t) ^ 4) \<le> 255"
    using fade_range [OF t, of 4] by (intro round_channel_range) simp_all
  have g: "0 \<le> round (255 - 180 * (t * t * (3 - 2 * t))) \<and> round (255 - 180 * (t * t * (3 - 2 * t))) \<le> 255"
    using green_range [OF t] by (intro round_channel_range) simp_all
  have "channels n i = Some (round (255 * (1 - t) ^ 3),
                             round (255 - 180 * (t * t * (3 - 2 * t))),
                             round (255 * (1 - t) ^ 4))"
    unfolding channels_formula [OF assms(1)] Let_def t_def [symmetric] by simp
  with assms(3) r g b show ?thesis by simp
qed




lemma fade_antimono:
  assumes "0 \<le> (s :: rat)" "s \<le> t" "t \<le> 1"
  shows "round (255 * (1 - t) ^ k) \<le> round (255 * (1 - s) ^ k)"
proof -
  have "(1 - t) ^ k \<le> (1 - s) ^ k"
    using assms by (intro power_mono) simp_all
  then show ?thesis
    by (intro round_mono) simp
qed

text \<open>
  Claim C9. For a trail length of at least 2, red and blue do not increase along the
  trail: for indices \<open>i \<le> j\<close> of the table, the red and blue channels of entry \<open>j\<close> are
  at most those of entry \<open>i\<close>. Entry 0, the head, is \<open>(255, 255, 255)\<close>, and no channel
  of any entry exceeds 255.
\<close>

theorem gradient_monotone:
  assumes "2 \<le> n" and "i \<le> j" and "j < n"
    and "channels n i = Some (r1, g1, b1)" and "channels n j = Some (r2, g2, b2)"
  shows "r2 \<le> r1 \<and> b2 \<le> b1
    \<and> channels n 0 = Some (255, 255, 255)
    \<and> r1 \<le> 255 \<and> g1 \<le> 255 \<and> b1 \<le> 255"
proof -
  define s :: rat where "s = of_nat i / of_nat (n - 1)"
  define t :: rat where "t = of_nat j / of_nat (n - 1)"
  have "i < n" using assms by simp
  have s0: "0 \<le> s" using gradient_t_unit [OF assms(1) \<open>i < n\<close>] by (simp add: s_def)
  have t1: "t \<le> 1" using gradient_t_unit [OF assms(1,3)] by (simp add: t_def)
  have "(of_nat i :: rat) \<le> of_nat j" using assms(2) by (simp only: of_nat_le_iff)
  then have st: "s \<le> t" by (simp add: s_def t_def divide_right_mono)
  have ci: "r1 = round (255 * (1 - s) ^ 3) \<and> b1 = round (255 * (1 - s) ^ 4)"
    using assms(4) unfolding channels_formula [OF assms(1)] Let_def s_def [symmetric] by simp
  have cj: "r2 = round (255 * (1 - t) ^ 3) \<and> b2 = round (255 * (1 - t) ^ 4)"
    using assms(5) unfolding channels_formula [OF assms(1)] Let_def t_def [symmetric] by simp
  have head: "channels n 0 = Some (255, 255, 255)"
    unfolding channels_formula [OF assms(1)] Let_def by simp
  show ?thesis
    using fade_antimono [OF s0 st t1, of 3] fade_antimono [OF s0 st t1, of 4] ci cj head
      channels_range [OF assms(1) \<open>i < n\<close> assms(4)]
    by simp
qed

theorem gradient_monotone_witness:
  "(2 :: nat) \<le> 3 \<and> (1 :: nat) \<le> 2 \<and> (2 :: nat) < 3
   \<and> channels 3 1 = Some (32, 165, 16) \<and> channels 3 2 = Some (0, 75, 0)
   \<and> (0 :: int) \<le> 32 \<and> channels 3 0 = Some (255, 255, 255)"
proof -
  have a: "channels 3 1 = Some (32, 165, 16)"
    by code_simp
  have b: "channels 3 2 = Some (0, 75, 0)"
    by code_simp
  show ?thesis
    using gradient_monotone [of 3 1 2 32 165 16 0 75 0] a b by simp
qed


section \<open>Truncation, indices and glyphs\<close>

lemma int32_id: "- 2147483648 \<le> k \<Longrightarrow> k < 2147483648 \<Longrightarrow> int32 k = k"
  by (simp add: int32_def sint_sbintrunc' signed_take_bit_int_eq_self)


lemma CHAR_LEN_82: "CHAR_LEN = 82"
  by (simp add: CHAR_LEN_def CHARS_def ascii_def)








section \<open>Concrete draws\<close>

text \<open>The first numbers drawn from the seeds 42 and 7, and what is needed to evaluate with them.\<close>

lemma seed42_draws:
  "random (Seeded 42) = (645430239 / 1073741824, Seeded 1831565855)"
  "random (Seeded 1831565855) = (962696645 / 2147483648, Seeded 3663131668)"
  "random (Seeded 3663131668) = (57208011 / 67108864, Seeded 1199730185)"
  "random (Seeded 1199730185) = (2876485805 / 4294967296, Seeded 3031295998)"
  by (simp_all add: mulberry32_next_def unsigned_fraction_def Let_def)


lemmas eval_simps = createDrop_def randomChar_def CHAR_LEN_82 toInt32_def trunc_def toUint16_def
  int32_def store_def floor_rat_numeral numeral_2_eq_2 mulberry32_def

section \<open>Fresh drops\<close>



section \<open>The advance of a drop\<close>




section \<open>Recycling\<close>

lemma fold_unchanged: "(\<And>i. i \<in> set xs \<Longrightarrow> f i st = st) \<Longrightarrow> fold f xs st = st"
  by (induction xs) simp_all

lemma draw_trail_offscreen:
  assumes "\<And>i. i < n \<Longrightarrow> int32 (pos_y d) - int i < 1"
  shows "draw_trail n h col d g buf = (g, buf)"
  unfolding draw_trail_def using assms
  by (intro fold_unchanged) (simp add: draw_cell_def)

lemma createDrop_False_pos: "pos_y (fst (createDrop n h False g)) = - int n"
  by (simp add: createDrop_def case_prod_beta Let_def)

lemma fresh_drop_offscreen:
  assumes "n \<le> 2147483648" and "i < n"
  shows "int32 (- int n) - int i < 1"
proof -
  have "int32 (- int n) = - int n" using assms(1) by (intro int32_id) simp_all
  then show ?thesis using assms(2) by simp
qed

lemma render_column_recycle:
  assumes "render_column n h now x d g buf = (d', g', buf')"
    and "advance n h now (int x + 1) d g buf = (d1, g1, buf1)"
    and "n \<le> 2147483648"
  shows "if pos_y d1 - int n > int h
     then d' = fst (createDrop n h False g1) \<and> g' = snd (createDrop n h False g1) \<and> buf' = buf1
     else d' = d1"
proof (cases "pos_y d1 - int n > int h")
  case True
  define d2 where "d2 = fst (createDrop n h False g1)"
  have off: "draw_trail n h (int x + 1) d2 g2 buf1 = (g2, buf1)" for g2
    using fresh_drop_offscreen [OF assms(3)]
    by (intro draw_trail_offscreen) (simp add: d2_def createDrop_False_pos)
  have "d' = d2" and "(g', buf') = draw_trail n h (int x + 1) d2 (snd (createDrop n h False g1)) buf1"
    using assms(1,2) True
    by (auto simp: render_column_def recycle_def Let_def case_prod_beta d2_def)
  then show ?thesis
    using True off [of "snd (createDrop n h False g1)"] by (simp add: d2_def)
next
  case False
  then show ?thesis
    using assms(1,2) by (simp add: render_column_def recycle_def Let_def case_prod_beta)
qed

lemma render_columns_nth:
  assumes "render_columns n h now xs ds g buf = Inr (ds', g', buf')" and "distinct xs"
  shows "length ds' = length ds
    \<and> (\<forall>x. x \<in> set xs \<longrightarrow> (\<exists>g0 buf0. ds' ! x = fst (render_column n h now x (ds ! x) g0 buf0)))
    \<and> (\<forall>x. x \<notin> set xs \<longrightarrow> ds' ! x = ds ! x)"
  using assms
proof (induction xs arbitrary: ds g buf)
  case Nil
  then show ?case by simp
next
  case (Cons x xs)
  from Cons.prems(1) have x: "x < length ds"
    by (simp split: if_splits)
  obtain d g1 buf1 where rc: "render_column n h now x (ds ! x) g buf = (d, g1, buf1)"
    by (cases "render_column n h now x (ds ! x) g buf") auto
  from Cons.prems(1) x rc
  have rest: "render_columns n h now xs (ds[x := d]) g1 buf1 = Inr (ds', g', buf')"
    by simp
  from Cons.prems(2) have dx: "x \<notin> set xs" "distinct xs" by simp_all
  note ih = Cons.IH [OF rest dx(2)]
  have len: "length ds' = length ds" using ih by simp
  have here: "ds' ! x = fst (render_column n h now x (ds ! x) g buf)"
    using ih dx(1) x rc by simp
  have there: "\<exists>g0 buf0. ds' ! y = fst (render_column n h now y (ds ! y) g0 buf0)"
    if "y \<in> set xs" for y
  proof -
    have "x \<noteq> y" using that dx(1) by auto
    then have eq: "ds[x := d] ! y = ds ! y" by (rule nth_list_update_neq)
    from ih that obtain g0 buf0
      where "ds' ! y = fst (render_column n h now y (ds[x := d] ! y) g0 buf0)" by blast
    then show ?thesis unfolding eq by blast
  qed
  have other: "ds' ! y = ds ! y" if "y \<notin> set (x # xs)" for y
    using ih that by simp
  show ?case
    using len here there other by auto
qed

lemma render_nth:
  assumes "render n now s = Inr s'" and "x < width s"
  shows "\<exists>g0 buf0. drops s' ! x = fst (render_column n (height s) now x (drops s ! x) g0 buf0)"
proof -
  obtain ds g buf where rc: "render_columns n (height s) now [0..<width s] (drops s) (rng_state s) []
      = Inr (ds, g, buf)" and s': "drops s' = ds"
    using assms(1) by (auto simp: render_def split: sum.splits)
  show ?thesis
    using render_columns_nth [OF rc] assms(2) s' by simp
qed

lemma render_columns_total:
  assumes "\<And>x. x \<in> set xs \<Longrightarrow> x < length ds"
  shows "\<exists>r. render_columns n h now xs ds g buf = Inr r"
  using assms
proof (induction xs arbitrary: ds g buf)
  case Nil
  then show ?case by simp
next
  case (Cons x xs)
  obtain d g1 buf1 where rc: "render_column n h now x (ds ! x) g buf = (d, g1, buf1)"
    by (cases "render_column n h now x (ds ! x) g buf") auto
  have "\<exists>r. render_columns n h now xs (ds[x := d]) g1 buf1 = Inr r"
    using Cons.prems by (intro Cons.IH) simp
  then show ?case
    using Cons.prems rc by simp
qed

lemma render_total:
  assumes "width s \<le> length (drops s)"
  shows "\<exists>s'. render n now s = Inr s'"
proof -
  obtain r where "render_columns n (height s) now [0..<width s] (drops s) (rng_state s) [] = Inr r"
    using render_columns_total [of "[0..<width s]" "drops s"] assms by fastforce
  then show ?thesis
    by (cases r) (simp add: render_def)
qed

lemma advance_pos:
  "pos_y (fst (advance n h now col d g buf)) = (if now \<ge> nextUpdate d then pos_y d + 1 else pos_y d)"
  by (simp add: advance_def Let_def case_prod_beta)

text \<open>
  Claim C3. A render pass on a state that has a drop for each column completes (the
  trail length being at most \<open>2^31\<close>), and for each column \<open>x\<close> below the width: with \<open>d1\<close>
  the column's drop after the advance step (run with the random source and the pending
  writes as they are when the column is reached), the drop is replaced by
  \<open>createDrop(false)\<close> if \<open>position - trailLength > height\<close> holds for \<open>d1\<close>, and is \<open>d1\<close>
  itself otherwise. The replacement has position \<open>- trailLength\<close>; its trailing edge
  \<open>- 2 trailLength\<close> is at or above row 1, and every cell of its trail is above row 1.
  In terms of positions: with \<open>p\<close> the column's position after the advance step (one more
  than before if the drop was due, the same otherwise), the position after the pass is
  \<open>- trailLength\<close> if \<open>p - trailLength > height\<close>, and \<open>p\<close> otherwise.
\<close>

theorem recycle_exactly_when_below:
  assumes "width s \<le> length (drops s)" and "n \<le> 2147483648"
  shows "\<exists>s'. render n now s = Inr s' \<and>
    (\<forall>x < width s.
      (\<exists>g buf. case advance n (height s) now (int x + 1) (drops s ! x) g buf of
        (d1, g1, buf1) \<Rightarrow>
          if pos_y d1 - int n > int (height s)
          then drops s' ! x = fst (createDrop n (height s) False g1)
             \<and> pos_y (drops s' ! x) = - int n
             \<and> pos_y (drops s' ! x) - int n = - 2 * int n
             \<and> pos_y (drops s' ! x) - int n \<le> 1
             \<and> (\<forall>i < n. int32 (pos_y (drops s' ! x)) - int i < 1)
          else drops s' ! x = d1)
      \<and> pos_y (drops s' ! x) =
          (let p = (if now \<ge> nextUpdate (drops s ! x)
                    then pos_y (drops s ! x) + 1 else pos_y (drops s ! x))
           in if p - int n > int (height s) then - int n else p))"
proof -
  obtain s' where r: "render n now s = Inr s'"
    using render_total [OF assms(1)] by blast
  have "(\<exists>g buf. case advance n (height s) now (int x + 1) (drops s ! x) g buf of
        (d1, g1, buf1) \<Rightarrow>
          if pos_y d1 - int n > int (height s)
          then drops s' ! x = fst (createDrop n (height s) False g1)
             \<and> pos_y (drops s' ! x) = - int n
             \<and> pos_y (drops s' ! x) - int n = - 2 * int n
             \<and> pos_y (drops s' ! x) - int n \<le> 1
             \<and> (\<forall>i < n. int32 (pos_y (drops s' ! x)) - int i < 1)
          else drops s' ! x = d1)
      \<and> pos_y (drops s' ! x) =
          (let p = (if now \<ge> nextUpdate (drops s ! x)
                    then pos_y (drops s ! x) + 1 else pos_y (drops s ! x))
           in if p - int n > int (height s) then - int n else p)" if x: "x < width s" for x
  proof -
    obtain g buf where col: "drops s' ! x = fst (render_column n (height s) now x (drops s ! x) g buf)"
      using render_nth [OF r x] by blast
    obtain d1 g1 buf1 where adv: "advance n (height s) now (int x + 1) (drops s ! x) g buf = (d1, g1, buf1)"
      by (cases "advance n (height s) now (int x + 1) (drops s ! x) g buf") auto
    obtain d' g' buf' where rc: "render_column n (height s) now x (drops s ! x) g buf = (d', g', buf')"
      by (cases "render_column n (height s) now x (drops s ! x) g buf") auto
    have d': "drops s' ! x = d'" using col rc by simp
    have p: "pos_y d1 = (if now \<ge> nextUpdate (drops s ! x)
                    then pos_y (drops s ! x) + 1 else pos_y (drops s ! x))"
      using advance_pos [of n "height s" now "int x + 1" "drops s ! x" g buf] adv by simp
    have main: "if pos_y d1 - int n > int (height s)
          then drops s' ! x = fst (createDrop n (height s) False g1)
             \<and> pos_y (drops s' ! x) = - int n
             \<and> pos_y (drops s' ! x) - int n = - 2 * int n
             \<and> pos_y (drops s' ! x) - int n \<le> 1
             \<and> (\<forall>i < n. int32 (pos_y (drops s' ! x)) - int i < 1)
          else drops s' ! x = d1"
      using render_column_recycle [OF rc adv assms(2)] d' fresh_drop_offscreen [OF assms(2)]
      by (simp add: createDrop_False_pos)
    have "\<exists>g buf. case advance n (height s) now (int x + 1) (drops s ! x) g buf of
        (d1, g1, buf1) \<Rightarrow>
          if pos_y d1 - int n > int (height s)
          then drops s' ! x = fst (createDrop n (height s) False g1)
             \<and> pos_y (drops s' ! x) = - int n
             \<and> pos_y (drops s' ! x) - int n = - 2 * int n
             \<and> pos_y (drops s' ! x) - int n \<le> 1
             \<and> (\<forall>i < n. int32 (pos_y (drops s' ! x)) - int i < 1)
          else drops s' ! x = d1"
      using main adv by (intro exI [of _ g] exI [of _ buf]) simp
    moreover have "pos_y (drops s' ! x) =
          (let p = (if now \<ge> nextUpdate (drops s ! x)
                    then pos_y (drops s ! x) + 1 else pos_y (drops s ! x))
           in if p - int n > int (height s) then - int n else p)"
      unfolding Let_def p [symmetric] using main
      by (simp add: createDrop_False_pos split: if_splits)
    ultimately show ?thesis by blast
  qed
  with r show ?thesis by blast
qed

text \<open>What is unfolded to evaluate a render pass or a run on a concrete state.\<close>

lemmas run_simps = render_def render_column_def advance_def recycle_def draw_trail_def
  draw_cell_def step_def loop_iteration_def frame_due_def renders_def
  on_resize_def resize_drops_def or_dim_def stop_def

theorem recycle_exactly_when_below_witness:
  "render 2 10 \<lparr>width = 1, height = 5,
       drops = [\<lparr>pos_y = 8, speed = 1 / 2, chars = [1, 2], nextUpdate = 100\<rparr>],
       buffer = [], lastFrame = 0, running = True, rng_state = Seeded 42, stdout = [],
       exit_code = None\<rparr>
     = Inr \<lparr>width = 1, height = 5,
       drops = [\<lparr>pos_y = - 2, speed = 3 / 10 + 57208011 / 67108864 * (7 / 10), chars = [49, 36],
                 nextUpdate = 0\<rparr>],
       buffer = [], lastFrame = 0, running = True, rng_state = Seeded 1199730185, stdout = [[]],
       exit_code = None\<rparr>
   \<and> (0 :: nat) < 1 \<and> (2 :: nat) \<le> 2147483648
   \<and> int 5 < 8 - int 2
   \<and> (- 2 :: int) - int 2 = - 2 * int 2
   \<and> int32 (- 2) - int 0 < 1 \<and> int32 (- 2) - int 1 < 1"
proof -
  define s0 where "s0 = \<lparr>width = 1, height = 5,
       drops = [\<lparr>pos_y = 8, speed = 1 / 2, chars = [1, 2], nextUpdate = 100\<rparr>],
       buffer = [], lastFrame = 0, running = True, rng_state = Seeded 42, stdout = [],
       exit_code = None\<rparr>"
  define s1 where "s1 = \<lparr>width = 1, height = 5,
       drops = [\<lparr>pos_y = - 2, speed = 3 / 10 + 57208011 / 67108864 * (7 / 10), chars = [49, 36],
                 nextUpdate = 0\<rparr>],
       buffer = [], lastFrame = 0, running = True, rng_state = Seeded 1199730185, stdout = [[]],
       exit_code = None\<rparr>"
  have r: "render 2 10 s0 = Inr s1"
    by (simp add: s0_def s1_def render_def render_column_def advance_def recycle_def draw_trail_def
        draw_cell_def eval_simps seed42_draws del: random.simps)
  have "width s0 = 1" "height s0 = 5"
    "drops s0 ! 0 = \<lparr>pos_y = 8, speed = 1 / 2, chars = [1, 2], nextUpdate = 100\<rparr>"
    "drops s1 ! 0 = \<lparr>pos_y = - 2, speed = 3 / 10 + 57208011 / 67108864 * (7 / 10), chars = [49, 36],
                 nextUpdate = 0\<rparr>"
    by (simp_all add: s0_def s1_def)
  moreover have "width s0 \<le> length (drops s0)" by (simp add: s0_def)
  ultimately show ?thesis
    using recycle_exactly_when_below [of s0 2 10] r
    by (auto simp: advance_def s0_def s1_def int32_def)
qed

section \<open>Resizing\<close>

lemma initial_drops_snoc:
  "initial_drops n h (Suc k) g =
     (let (ds, g1) = initial_drops n h k g;
          (d, g2) = createDrop n h True g1
      in (ds @ [d], g2))"
  by (induction k arbitrary: g) (simp_all add: case_prod_beta Let_def)

lemma initial_drops_length: "length (fst (initial_drops n h k g)) = k"
  by (induction k arbitrary: g) (simp_all add: case_prod_beta Let_def)

lemma resize_drops_eq:
  "resize_drops n h old w g =
     (take w old @ fst (initial_drops n h (w - length old) g),
      snd (initial_drops n h (w - length old) g))"
proof (induction w)
  case 0
  then show ?case by (simp add: resize_drops_def)
next
  case (Suc w)
  show ?case
  proof (cases "w < length old")
    case True
    then have "Suc w - length old = 0" "w - length old = 0" by simp_all
    then show ?thesis
      using Suc True
      by (simp add: resize_drops_def take_Suc_conv_app_nth)
  next
    case False
    then have "Suc w - length old = Suc (w - length old)" by simp
    then show ?thesis
      using Suc False
      by (simp add: resize_drops_def initial_drops_snoc case_prod_beta Let_def del: initial_drops.simps)
  qed
qed

lemma or_dim_pos: "0 < d \<Longrightarrow> 0 < or_dim c d"
  by (simp add: or_dim_def split: option.splits)

text \<open>
  Claim C6. A resize to a different width \<open>w\<close> (always positive), in a state whose array
  of drops has one drop for each column: afterwards there are \<open>w\<close> drops; each column
  below both the old and the new width has exactly the drop it had (position, speed,
  glyph buffer and all); the columns from the old width on, and only those, hold fresh
  drops, made with \<open>randomStart = true\<close> in ascending order as the constructor makes them;
  when \<open>w\<close> is smaller, the array is the old one cut to \<open>w\<close> and no random number is
  drawn. The resize itself cannot fail, and the next render pass completes.
\<close>

theorem resize_keeps_columns:
  assumes "or_dim columns 80 \<noteq> width s" and "length (drops s) = width s"
  shows "(let w = or_dim columns 80; s' = on_resize n columns rows s
     in 0 < w \<and> width s' = w \<and> length (drops s') = w
      \<and> (\<forall>x. x < w \<and> x < width s \<longrightarrow> drops s' ! x = drops s ! x)
      \<and> drops s' = take w (drops s) @ fst (initial_drops n (height s) (w - width s) (rng_state s))
      \<and> rng_state s' = snd (initial_drops n (height s) (w - width s) (rng_state s))
      \<and> (w < width s \<longrightarrow> drops s' = take w (drops s) \<and> rng_state s' = rng_state s)
      \<and> (\<exists>s''. render n now s' = Inr s''))"
proof -
  define w where "w = or_dim columns 80"
  define s' where "s' = on_resize n columns rows s"
  define fresh where "fresh = initial_drops n (height s) (w - width s) (rng_state s)"
  have w: "0 < w" by (simp add: w_def or_dim_pos)
  have ds: "drops s' = take w (drops s) @ fst fresh" and g: "rng_state s' = snd fresh"
    and ws: "width s' = w"
    using assms
    by (simp_all add: s'_def on_resize_def Let_def resize_drops_eq w_def fresh_def case_prod_beta)
  have len: "length (drops s') = w"
    using assms(2) by (simp add: ds fresh_def initial_drops_length)
  have keep: "drops s' ! x = drops s ! x" if "x < w \<and> x < width s" for x
    using that assms(2) by (simp add: ds nth_append)
  have shrink: "drops s' = take w (drops s) \<and> rng_state s' = rng_state s" if "w < width s"
    using that by (simp add: ds g fresh_def)
  have "\<exists>s''. render n now s' = Inr s''"
    using len ws by (intro render_total) simp
  then show ?thesis
    using w ws len keep shrink ds g
    unfolding Let_def w_def [symmetric] s'_def [symmetric] fresh_def by blast
qed

theorem resize_keeps_columns_witness:
  "or_dim (Some 2) 80 \<noteq> width \<lparr>width = 1, height = 5,
       drops = [\<lparr>pos_y = 3, speed = 1 / 2, chars = [1, 2], nextUpdate = 100\<rparr>],
       buffer = [], lastFrame = 0, running = True, rng_state = Seeded 42, stdout = [],
       exit_code = None\<rparr>
   \<and> on_resize 2 (Some 2) (Some 6) \<lparr>width = 1, height = 5,
       drops = [\<lparr>pos_y = 3, speed = 1 / 2, chars = [1, 2], nextUpdate = 100\<rparr>],
       buffer = [], lastFrame = 0, running = True, rng_state = Seeded 42, stdout = [],
       exit_code = None\<rparr>
     = \<lparr>width = 2, height = 6,
       drops = [\<lparr>pos_y = 3, speed = 1 / 2, chars = [1, 2], nextUpdate = 100\<rparr>,
                \<lparr>pos_y = - 4, speed = 3 / 10 + 2876485805 / 4294967296 * (7 / 10),
                 chars = [49, 36], nextUpdate = 0\<rparr>],
       buffer = [], lastFrame = 0, running = True, rng_state = Seeded 3031295998,
       stdout = [CLEAR_SCREEN], exit_code = None\<rparr>
   \<and> initial_drops 2 5 (2 - 1) (Seeded 42)
     = ([\<lparr>pos_y = - 4, speed = 3 / 10 + 2876485805 / 4294967296 * (7 / 10),
                 chars = [49, 36], nextUpdate = 0\<rparr>], Seeded 3031295998)"
proof -
  define s0 where "s0 = \<lparr>width = 1, height = 5,
       drops = [\<lparr>pos_y = 3, speed = 1 / 2, chars = [1, 2], nextUpdate = 100\<rparr>],
       buffer = [], lastFrame = 0, running = True, rng_state = Seeded 42, stdout = [],
       exit_code = None\<rparr>"
  have a: "or_dim (Some 2) 80 \<noteq> width s0" and b: "length (drops s0) = width s0"
    by (simp_all add: s0_def or_dim_def)
  have c: "createDrop 2 5 True (Seeded 42)
       = (\<lparr>pos_y = - 4, speed = 3 / 10 + 2876485805 / 4294967296 * (7 / 10),
            chars = [49, 36], nextUpdate = 0\<rparr>, Seeded 3031295998)"
    by (simp add: eval_simps seed42_draws del: random.simps)
  have i: "initial_drops 2 5 (2 - 1) (Seeded 42)
     = ([\<lparr>pos_y = - 4, speed = 3 / 10 + 2876485805 / 4294967296 * (7 / 10),
                 chars = [49, 36], nextUpdate = 0\<rparr>], Seeded 3031295998)"
    by (simp add: c)
  have "on_resize 2 (Some 2) (Some 6) s0 = \<lparr>width = 2, height = 6,
       drops = take 2 (drops s0) @ fst (initial_drops 2 5 (2 - 1) (Seeded 42)),
       buffer = [], lastFrame = 0, running = True,
       rng_state = snd (initial_drops 2 5 (2 - 1) (Seeded 42)),
       stdout = [CLEAR_SCREEN], exit_code = None\<rparr>"
    using resize_keeps_columns [OF a b, of 2 "Some 6" 0]
    by (simp add: Let_def or_dim_def s0_def on_resize_def case_prod_beta)
  then show ?thesis
    using a i unfolding s0_def by simp
qed

section \<open>Frame pacing\<close>

lemma step_Tick:
  "step n fps s (Tick now) =
     (if renders fps s (Tick now)
      then (case render n now s of Inl e \<Rightarrow> Inl e | Inr s' \<Rightarrow> Inr (s'\<lparr>lastFrame := now\<rparr>))
      else Inr s)"
  by (simp add: step_def renders_def loop_iteration_def)

lemma render_lastFrame: "render n now s = Inr s' \<Longrightarrow> lastFrame s' = lastFrame s"
  by (auto simp: render_def split: sum.splits)

lemma step_lastFrame:
  assumes "step n fps s e = Inr s'"
  shows "lastFrame s' = (if renders fps s e then (case e of Tick now \<Rightarrow> now | _ \<Rightarrow> lastFrame s) else lastFrame s)"
proof (cases e)
  case (Tick now)
  then show ?thesis
    using assms by (auto simp: step_Tick split: if_splits sum.splits)
next
  case (Resize c r)
  then show ?thesis
    using assms by (auto simp: step_def renders_def on_resize_def Let_def case_prod_beta split: if_splits)
next
  case Signal
  then show ?thesis
    using assms by (auto simp: step_def renders_def stop_def split: if_splits)
qed

lemma render_times_paced: "paced fps (lastFrame s) (render_times n fps s es)"
proof (induction es arbitrary: s)
  case Nil
  then show ?case by simp
next
  case (Cons e es)
  show ?case
  proof (cases "step n fps s e")
    case (Inl err)
    then show ?thesis
      by (cases e) (simp_all add: renders_def frame_due_def)
  next
    case (Inr s')
    note lf = step_lastFrame [OF Inr]
    show ?thesis
    proof (cases "renders fps s e")
      case True
      then obtain now where e: "e = Tick now" and due: "frame_due fps now s"
        by (cases e) (simp_all add: renders_def)
      have "lastFrame s' = now" using lf True e by simp
      then show ?thesis
        using Cons.IH [of s'] Inr True e due by (simp add: frame_due_def)
    next
      case False
      then have "lastFrame s' = lastFrame s" using lf by simp
      then show ?thesis
        using Cons.IH [of s'] Inr False by (cases e) simp_all
    qed
  qed
qed

lemma paced_adjacent: "paced fps prev (pre @ t1 # t2 # post) \<Longrightarrow> elapsed_enough fps t1 t2"
proof (induction pre arbitrary: prev)
  case Nil
  then show ?case by simp
next
  case (Cons a pre)
  from Cons.prems have "paced fps a (pre @ t1 # t2 # post)" by simp
  then show ?case by (rule Cons.IH)
qed

text \<open>
  When the test for a due frame passes, the exact difference of the clock readings is at
  least the exact quotient \<open>1000 / fps\<close> less one part in \<open>2^52\<close>.
\<close>

lemma elapsed_enough_exact:
  assumes "0 < k" and "k < 2 ^ 1024" and "elapsed_enough (Finite k) t1 t2"
  shows "(1 - 1 / 2 ^ 52) * (1000 / of_int k) \<le> t2 - t1"
proof -
  define x :: rat where "x = 1000 / of_int k"
  define d where "d = t2 - t1"
  define t :: rat where "t = 2 powi (- 1022)"
  have t0: "0 < t" unfolding t_def by (rule pow2_pos)
  have t1: "t \<le> 1"
  proof -
    have "(2 :: rat) powi (- 1022) \<le> 2 powi 0" by (intro power_int_increasing) simp_all
    then show ?thesis by (simp add: t_def)
  qed
  have k1: "(1 :: rat) \<le> of_int k"
  proof -
    have "1 \<le> k" using assms(1) by simp
    then have "(of_int 1 :: rat) \<le> of_int k" by (simp only: of_int_le_iff)
    then show ?thesis by simp
  qed
  have k2: "(of_int k :: rat) \<le> 2 ^ 1024"
    using assms(2) by (intro of_int_le_pow2) simp
  have x0: "0 < x" using k1 by (simp add: x_def)
  have x1: "x \<le> 1000"
  proof -
    have "1000 / of_int k \<le> (1000 :: rat) / 1" using k1 by (intro divide_left_mono) simp_all
    then show ?thesis by (simp add: x_def)
  qed
  have "(1000 :: rat) / 2 ^ 1024 \<le> 1000 / of_int k"
    using k1 k2 by (intro divide_left_mono) simp_all
  moreover have "(1000 :: rat) / 2 ^ 1024 = 250 * t"
    by (simp add: t_def)
  ultimately have x250: "250 * t \<le> x" by (simp add: x_def)
  then have tx: "2 powi (- 1022) \<le> x" using t0 unfolding t_def by linarith
  define F where "F = double x"
  have F: "x - x / 9007199254740992 \<le> F" unfolding F_def using double_normal [OF tx] by simp
  have p53: "(2 :: rat) ^ 53 = 9007199254740992" by simp
  have p52: "(2 :: rat) ^ 52 = 4503599627370496" by simp
  have up: "double d \<le> d + d / 2 ^ 53 \<or> double d \<le> d + t" if "0 < d"
  proof (cases "2 powi (- 1022) \<le> d")
    case True
    then show ?thesis using double_normal [of d] by simp
  next
    case False
    then have "d < 2 powi (- 1022)" by simp
    then show ?thesis using double_subnormal [OF that] unfolding t_def by simp
  qed
  have e: "if overflows d then 0 < d else F \<le> double d"
    using assms(3) by (simp add: elapsed_enough_def d_def F_def x_def frameTime_def split: if_splits)
  have "x - x / 4503599627370496 \<le> d"
  proof (cases "overflows d")
    case True
    then have d0: "0 < d" using e by simp
    have big: "(2 :: rat) ^ 1024 \<le> double d"
      using True double_nonneg [of d] d0 by (simp add: overflows_def)
    have "(4000 :: rat) \<le> 2 ^ 1024" by simp
    then have "4000 \<le> double d" using big by linarith
    then have "1000 \<le> d" using up [OF d0] t1 d0 unfolding p53 by linarith
    then show ?thesis using x0 x1 by linarith
  next
    case False
    then have Fd: "F \<le> double d" using e by simp
    have "0 < F" using F x0 by linarith
    then have "0 < double d" using Fd by linarith
    then have d0: "0 < d" using double_nonpos [of d] by linarith
    show ?thesis
    proof (cases "2 powi (- 1022) \<le> d")
      case True
      then have "double d \<le> d + d / 9007199254740992" using double_normal [of d] by simp
      then show ?thesis using Fd F x0 by linarith
    next
      case False
      then have "d < t" by (simp add: t_def)
      moreover have "double d \<le> d + t"
        using False double_subnormal [OF d0] unfolding t_def by simp
      ultimately have "False" using Fd F x250 t0 by linarith
      then show ?thesis ..
    qed
  qed
  then have "(1 - 1 / 2 ^ 52) * x \<le> d" unfolding p52 by (simp add: algebra_simps)
  then show ?thesis by (simp only: x_def d_def)
qed

lemma TARGET_FPS_proper: "TARGET_FPS a \<noteq> Finite 0 \<and> TARGET_FPS a \<noteq> NaN"
  by (cases a) (simp_all add: TARGET_FPS_def or_default_def)

lemma seed42_more_draws:
  "random (Seeded 3031295998) = (375409989 / 2147483648, Seeded 567894515)"
  "random (Seeded 567894515) = (2261697747 / 4294967296, Seeded 2399460328)"
  "random (Seeded 2399460328) = (293376325 / 1073741824, Seeded 4231026141)"
  by (simp_all add: mulberry32_next_def unsigned_fraction_def Let_def)

lemmas frame_simps = elapsed_enough_def overflows_def frameTime_def TARGET_FPS_def or_default_def
  double_numeral double_frame_30 double_frame_90 double_frame_90_exact

text \<open>
  Claim C7, as amended. A loop iteration calls \<open>render\<close> exactly when \<open>renders\<close> holds,
  and then records its clock reading as the last frame time. For any two consecutive
  calls of \<open>render\<close> in a run, at clock readings \<open>t1\<close> and then \<open>t2\<close>, whatever events
  (resizes, iterations that do not render) lie between them, the test
  \<open>t2 - t1 >= frameTime\<close> holds as the program computes it: the difference rounded to a
  double (or infinite and positive) is at least \<open>frameTime\<close>, the double nearest to
  \<open>1000 / fps\<close>. For a positive frame rate \<open>k\<close> the exact difference \<open>t2 - t1\<close> is then at
  least \<open>(1 - 2^(-52)) * (1000 / k)\<close>. The frame rate used is never 0 or \<open>NaN\<close>.
\<close>

theorem frame_pacing:
  "step n fps s (Tick now) =
     (if renders fps s (Tick now)
      then (case render n now s of Inl e \<Rightarrow> Inl e | Inr s' \<Rightarrow> Inr (s'\<lparr>lastFrame := now\<rparr>))
      else Inr s)
   \<and> (render_times n fps s es = pre @ t1 # t2 # post \<longrightarrow>
        fps \<noteq> NaN
        \<and> (if overflows (t2 - t1) then 0 < t2 - t1
           else fps \<noteq> Finite 0 \<and> double (t2 - t1) \<ge> frameTime fps))
   \<and> frameTime (Finite k) = double (1000 / of_int k)
   \<and> (0 < k \<and> k < 2 ^ 1024 \<and> render_times n (Finite k) s es = pre @ t1 # t2 # post \<longrightarrow>
        (1 - 1 / 2 ^ 52) * (1000 / of_int k) \<le> t2 - t1)
   \<and> TARGET_FPS a \<noteq> Finite 0 \<and> TARGET_FPS a \<noteq> NaN"
proof -
  have ee: "elapsed_enough f t1 t2" if "render_times n f s es = pre @ t1 # t2 # post" for f
    using render_times_paced [of f s n es] unfolding that by (rule paced_adjacent)
  have "fps \<noteq> NaN
        \<and> (if overflows (t2 - t1) then 0 < t2 - t1
           else fps \<noteq> Finite 0 \<and> double (t2 - t1) \<ge> frameTime fps)"
    if "render_times n fps s es = pre @ t1 # t2 # post"
    using ee [OF that] by (simp add: elapsed_enough_def split: if_splits)
  moreover have "frameTime (Finite k) = double (1000 / of_int k)"
    by (simp add: frameTime_def)
  moreover have "(1 - 1 / 2 ^ 52) * (1000 / of_int k) \<le> t2 - t1"
    if "0 < k" and "k < 2 ^ 1024" and "render_times n (Finite k) s es = pre @ t1 # t2 # post"
    using that(1,2) ee [OF that(3)] by (rule elapsed_enough_exact)
  ultimately show ?thesis
    using step_Tick [of n fps s now] TARGET_FPS_proper [of a]
    by blast
qed

theorem frame_pacing_witness:
  "render_times 2 (Finite 30) \<lparr>width = 1, height = 5,
       drops = [\<lparr>pos_y = - 3, speed = 1 / 2, chars = [1, 2], nextUpdate = 1000\<rparr>],
       buffer = [], lastFrame = 0, running = True, rng_state = Seeded 42, stdout = [],
       exit_code = None\<rparr> [Tick 40, Tick 50, Tick 80] = [] @ 40 # 80 # []
   \<and> \<not> overflows (80 - 40)
   \<and> double (80 - 40) \<ge> frameTime (Finite 30)
   \<and> (0 :: int) < 30 \<and> (30 :: int) < 2 ^ 1024
   \<and> (1 - 1 / 2 ^ 52) * (1000 / of_int 30) \<le> (80 - 40 :: rat)"
proof -
  define s0 where "s0 = \<lparr>width = 1, height = 5,
       drops = [\<lparr>pos_y = - 3, speed = 1 / 2, chars = [1, 2], nextUpdate = 1000\<rparr>],
       buffer = [], lastFrame = 0, running = True, rng_state = Seeded 42, stdout = [],
       exit_code = None\<rparr>"
  note t = frame_pacing [of 2 "Finite 30" s0 0 "[Tick 40, Tick 50, Tick 80]" "[]" 40 80 "[]" 30]
  have r: "render_times 2 (Finite 30) s0 [Tick 40, Tick 50, Tick 80] = [] @ 40 # 80 # []"
    by (simp add: s0_def run_simps eval_simps frame_simps)
  have o: "\<not> overflows (80 - 40)"
    by (simp add: frame_simps)
  have k: "(0 :: int) < 30" "(30 :: int) < 2 ^ 1024"
    by simp_all
  have "if overflows (80 - 40) then (0 :: rat) < 80 - 40
        else Finite 30 \<noteq> Finite 0 \<and> double (80 - 40) \<ge> frameTime (Finite 30)"
    using t r by blast
  then have d: "double (80 - 40) \<ge> frameTime (Finite 30)"
    using o by (simp only: if_False)
  have b: "(1 - 1 / 2 ^ 52) * (1000 / of_int 30) \<le> (80 - 40 :: rat)"
    using t r k by blast
  show ?thesis
    using r o d k b unfolding s0_def by blast
qed

text \<open>
  The claim as it was stated, with the exact difference and the exact quotient, fails.
  With \<open>--fps=90\<close> the frame time is the double nearest to \<open>1000 / 90\<close>, which is
  \<open>f = 3127499741229511 / 2^48\<close>, a little less than \<open>1000 / 90\<close>. From the start of a run
  (seed 42, trail length 2, one column, five rows), loop iterations at the clock readings
  \<open>f\<close> and \<open>2 f\<close> both render, and \<open>2 f - f < 1000 / 90\<close>.
\<close>

theorem frame_pacing_counterexample:
  "render_times 2 (TARGET_FPS (Finite 90))
     (run_start (new_MatrixRain 2 (Some 1) (Some 5) (Seeded (mulberry32 (Finite 42)))))
     [Tick (3127499741229511 / 281474976710656), Tick (3127499741229511 / 140737488355328)]
     = [3127499741229511 / 281474976710656, 3127499741229511 / 140737488355328]
   \<and> (3127499741229511 / 140737488355328 :: rat) - 3127499741229511 / 281474976710656 < 1000 / 90
   \<and> (3127499741229511 / 281474976710656 :: rat) < 3127499741229511 / 140737488355328"
proof -
  have i: "run_start (new_MatrixRain 2 (Some 1) (Some 5) (Seeded (mulberry32 (Finite 42))))
     = \<lparr>width = 1, height = 5,
        drops = [\<lparr>pos_y = - 4, speed = 3 / 10 + 2876485805 / 4294967296 * (7 / 10),
                  chars = [49, 36], nextUpdate = 0\<rparr>],
        buffer = [], lastFrame = 0, running = True, rng_state = Seeded 3031295998,
        stdout = [HIDE_CURSOR @ CLEAR_SCREEN], exit_code = None\<rparr>"
    by (simp add: run_start_def new_MatrixRain_def or_dim_def eval_simps seed42_draws
        del: random.simps)
  have "render_times 2 (TARGET_FPS (Finite 90))
     \<lparr>width = 1, height = 5,
        drops = [\<lparr>pos_y = - 4, speed = 3 / 10 + 2876485805 / 4294967296 * (7 / 10),
                  chars = [49, 36], nextUpdate = 0\<rparr>],
        buffer = [], lastFrame = 0, running = True, rng_state = Seeded 3031295998,
        stdout = [HIDE_CURSOR @ CLEAR_SCREEN], exit_code = None\<rparr>
     [Tick (3127499741229511 / 281474976710656), Tick (3127499741229511 / 140737488355328)]
     = [3127499741229511 / 281474976710656, 3127499741229511 / 140737488355328]"
    by (simp add: run_simps eval_simps frame_simps seed42_more_draws del: random.simps)
  then show ?thesis
    unfolding i by simp
qed

section \<open>Shutdown\<close>

lemma render_shape:
  assumes "render n now s = Inr s'"
  shows "length (drops s') = length (drops s) \<and> width s' = width s \<and> height s' = height s
    \<and> exit_code s' = exit_code s \<and> running s' = running s
    \<and> length (stdout s') = Suc (length (stdout s))"
proof -
  obtain ds g buf where rc: "render_columns n (height s) now [0..<width s] (drops s) (rng_state s) []
      = Inr (ds, g, buf)"
      and s': "s' = s\<lparr>drops := ds, rng_state := g, buffer := buf, stdout := stdout s @ [concat buf]\<rparr>"
    using assms by (auto simp: render_def split: sum.splits)
  show ?thesis
    using render_columns_nth [OF rc] s' by simp
qed

lemma on_resize_shape:
  assumes "length (drops s) = width s"
  shows "length (drops (on_resize n c r s)) = width (on_resize n c r s)
    \<and> exit_code (on_resize n c r s) = exit_code s"
  using assms
  by (auto simp: on_resize_def Let_def case_prod_beta resize_drops_eq initial_drops_length)

lemma step_alive:
  assumes "length (drops s) = width s" and "exit_code s = None" and "e \<noteq> Signal"
  shows "\<exists>s'. step n fps s e = Inr s' \<and> length (drops s') = width s' \<and> exit_code s' = None"
proof (cases e)
  case (Tick now)
  show ?thesis
  proof (cases "renders fps s e")
    case True
    obtain s1 where r: "render n now s = Inr s1"
      using render_total [of s n now] assms(1) by auto
    then show ?thesis
      using True Tick assms(1,2) render_shape [OF r] by (simp add: step_Tick)
  next
    case False
    then show ?thesis
      using Tick assms(1,2) by (simp add: step_Tick)
  qed
next
  case (Resize c r)
  then show ?thesis
    using assms(2) on_resize_shape [OF assms(1), of n c r] by (simp add: step_def)
next
  case Signal
  then show ?thesis using assms(3) by simp
qed

lemma run_events_alive:
  assumes "length (drops s) = width s" and "exit_code s = None" and "Signal \<notin> set es"
  shows "\<exists>s'. run_events n fps s es = Inr s' \<and> length (drops s') = width s' \<and> exit_code s' = None"
  using assms
proof (induction es arbitrary: s)
  case Nil
  then show ?case by simp
next
  case (Cons e es)
  from Cons.prems obtain s1 where s1: "step n fps s e = Inr s1" "length (drops s1) = width s1"
      "exit_code s1 = None"
    using step_alive [of s e n fps] by auto
  from Cons.prems have "Signal \<notin> set es" by simp
  from Cons.IH [OF s1(2,3) this] s1(1) show ?case by simp
qed

lemma new_MatrixRain_shape:
  "length (drops (new_MatrixRain n c r g)) = width (new_MatrixRain n c r g)
   \<and> exit_code (new_MatrixRain n c r g) = None"
  by (simp add: new_MatrixRain_def Let_def case_prod_beta initial_drops_length)

lemma run_events_append:
  "run_events n fps s (es @ es') =
     (case run_events n fps s es of Inl err \<Rightarrow> Inl err | Inr s' \<Rightarrow> run_events n fps s' es')"
  by (induction es arbitrary: s) (simp_all split: sum.splits)

lemma run_events_exited: "exit_code s \<noteq> None \<Longrightarrow> run_events n fps s es = Inr s"
  by (induction es) (simp_all add: step_def)

text \<open>
  Claim C8. From a live state with a drop for each column (such as the initial one), any
  sequence of loop iterations and resizes is handled without failure, and the first signal
  after it runs \<open>stop\<close>: the running flag is cleared, one write is made, consisting of
  the colour reset, show-cursor, clear-screen and cursor-to-row-1-column-1 sequences in
  this order, and the process exits with code 0. Whatever follows (further signals
  included) changes nothing: the cleanup has run exactly once.
\<close>

theorem shutdown_once:
  assumes "length (drops s0) = width s0" and "exit_code s0 = None" and "Signal \<notin> set es0"
  shows "\<exists>s. run_events n fps s0 es0 = Inr s
    \<and> run_events n fps s0 (es0 @ Signal # es) = Inr (stop s)
    \<and> running (stop s) = False \<and> exit_code (stop s) = Some 0
    \<and> stdout (stop s) = stdout s @ [RESET @ SHOW_CURSOR @ CLEAR_SCREEN @ moveTo 1 1]
    \<and> RESET @ SHOW_CURSOR @ CLEAR_SCREEN @ moveTo 1 1
        = [27, 91] @ ascii ''0m'' @ [27, 91] @ ascii ''?25h'' @ [27, 91] @ ascii ''2J''
          @ [27, 91] @ ascii ''1;1H''"
proof -
  obtain s where s: "run_events n fps s0 es0 = Inr s" "exit_code s = None"
    using run_events_alive [OF assms] by blast
  have "exit_code (stop s) \<noteq> None" by (simp add: stop_def)
  then have "run_events n fps (stop s) es = Inr (stop s)" by (rule run_events_exited)
  then have all: "run_events n fps s0 (es0 @ Signal # es) = Inr (stop s)"
    using s by (simp add: run_events_append step_def)
  have mv: "moveTo 1 1 = [27, 91] @ ascii ''1;1H''"
    by (simp add: moveTo_def ESC_def num_def ascii_def)
  have "running (stop s) = False \<and> exit_code (stop s) = Some 0
    \<and> stdout (stop s) = stdout s @ [RESET @ SHOW_CURSOR @ CLEAR_SCREEN @ moveTo 1 1]
    \<and> RESET @ SHOW_CURSOR @ CLEAR_SCREEN @ moveTo 1 1
        = [27, 91] @ ascii ''0m'' @ [27, 91] @ ascii ''?25h'' @ [27, 91] @ ascii ''2J''
          @ [27, 91] @ ascii ''1;1H''"
    using mv by (simp add: stop_def RESET_def SHOW_CURSOR_def CLEAR_SCREEN_def ESC_def)
  with s(1) all show ?thesis by blast
qed

theorem shutdown_once_witness:
  "run_events 2 (Finite 30) \<lparr>width = 1, height = 5,
       drops = [\<lparr>pos_y = - 3, speed = 1 / 2, chars = [1, 2], nextUpdate = 1000\<rparr>],
       buffer = [], lastFrame = 0, running = True, rng_state = Seeded 42, stdout = [],
       exit_code = None\<rparr> ([Tick 40] @ Signal # [Signal, Tick 100, Signal])
     = Inr \<lparr>width = 1, height = 5,
       drops = [\<lparr>pos_y = - 3, speed = 1 / 2, chars = [1, 2], nextUpdate = 1000\<rparr>],
       buffer = [], lastFrame = 40, running = False, rng_state = Seeded 42,
       stdout = [[], RESET @ SHOW_CURSOR @ CLEAR_SCREEN @ moveTo 1 1],
       exit_code = Some 0\<rparr>"
proof -
  define s0 where "s0 = \<lparr>width = 1, height = 5,
       drops = [\<lparr>pos_y = - 3, speed = 1 / 2, chars = [1, 2], nextUpdate = 1000\<rparr>],
       buffer = [], lastFrame = 0, running = True, rng_state = Seeded 42, stdout = [],
       exit_code = None\<rparr>"
  define s1 where "s1 = \<lparr>width = 1, height = 5,
       drops = [\<lparr>pos_y = - 3, speed = 1 / 2, chars = [1, 2], nextUpdate = 1000\<rparr>],
       buffer = [], lastFrame = 40, running = True, rng_state = Seeded 42, stdout = [[]],
       exit_code = None\<rparr>"
  have r: "run_events 2 (Finite 30) s0 [Tick 40] = Inr s1"
    by (simp add: s0_def s1_def run_simps eval_simps frame_simps)
  have "length (drops s0) = width s0" "exit_code s0 = None" "Signal \<notin> set [Tick 40]"
    by (simp_all add: s0_def)
  from shutdown_once [OF this, of 2 "Finite 30" "[Signal, Tick 100, Signal]"] r show ?thesis
    unfolding s0_def by (auto simp: s1_def stop_def)
qed

end
